theory Spec2Isabelle
  imports Complex_Main
begin

section \<open>Text primitives used by the scanner\<close>

text \<open>
  Response bodies and URLs are Python \<open>str\<close> values. They are modelled as \<open>string\<close>;
  a character is read as the code point of the same number (U+0000 to U+00FF).
  \<open>isspace\<close> is \<open>str.isspace\<close> on that range, which is what \<open>str.split()\<close> and
  \<open>str.strip()\<close> without arguments use as separators.
\<close>

definition isspace :: "char \<Rightarrow> bool" where
  "isspace c =
     (let n = (of_char c :: nat)
      in (9 \<le> n \<and> n \<le> 13) \<or> (28 \<le> n \<and> n \<le> 32) \<or> n = 133 \<or> n = 160)"

text \<open>\<open>text.split()\<close>: the maximal runs of non-whitespace characters, in order.\<close>

fun split_from :: "string \<Rightarrow> string \<Rightarrow> string list" where
  "split_from cur [] = (if cur = [] then [] else [cur])"
| "split_from cur (c # cs) =
     (if isspace c then (if cur = [] then [] else [cur]) @ split_from [] cs
      else split_from (cur @ [c]) cs)"

definition split :: "string \<Rightarrow> string list" where
  "split text = split_from [] text"

text \<open>\<open>line.strip()\<close>: leading and trailing whitespace removed.\<close>

definition strip :: "string \<Rightarrow> string" where
  "strip s = rev (dropWhile isspace (rev (dropWhile isspace s)))"

text \<open>\<open>url.rstrip('/')\<close>: every trailing slash removed.\<close>

definition rstrip_slash :: "string \<Rightarrow> string" where
  "rstrip_slash s = rev (dropWhile (\<lambda>c. c = CHR ''/'') (rev s))"

text \<open>\<open>text.lower()\<close> on the modelled range: A-Z and the Latin-1 capitals move by 32.\<close>

definition lower_char :: "char \<Rightarrow> char" where
  "lower_char c =
     (let n = (of_char c :: nat)
      in if (65 \<le> n \<and> n \<le> 90) \<or> (192 \<le> n \<and> n \<le> 222 \<and> n \<noteq> 215)
         then char_of (n + 32) else c)"

definition lower :: "string \<Rightarrow> string" where
  "lower text = map lower_char text"

text \<open>Truthiness of an optional string (\<open>if self.webhook_url:\<close>): neither \<open>None\<close> nor empty.\<close>

fun truthy :: "string option \<Rightarrow> bool" where
  "truthy None = False"
| "truthy (Some s) = (s \<noteq> [])"

section \<open>Similarity classifier\<close>

text \<open>
  \<open>WebScanner.similarity\<close>. Python divides two \<open>int\<close>s into a correctly rounded float; the
  model keeps the exact quotient as a rational. The rounded quotient compares with the
  float literal \<open>0.8\<close> as the exact one compares with 4/5 whenever the union has fewer
  than \<open>10 ^ 15\<close> tokens.
\<close>

definition similarity :: "string \<Rightarrow> string \<Rightarrow> rat" where
  "similarity text1 text2 =
     (let words1 = set (split text1);
          words2 = set (split text2);
          intersection = words1 \<inter> words2;
          union = words1 \<union> words2
      in if union \<noteq> {} then of_nat (card intersection) / of_nat (card union) else 0)"

text \<open>The Jaccard index as the specification words it, on arbitrary finite sets.\<close>

definition jaccard :: "'a set \<Rightarrow> 'a set \<Rightarrow> rat" where
  "jaccard A B = (if A \<union> B = {} then 0 else of_nat (card (A \<inter> B)) / of_nat (card (A \<union> B)))"

text \<open>
  One operand of \<open>WebScanner.is_similar_to_index_or_404\<close>:
  \<open>self.x and self.similarity(content, self.x) > 0.8\<close>. An absent or empty baseline is
  falsy, and then the similarity is not computed.
\<close>

fun and_similar :: "string option \<Rightarrow> string \<Rightarrow> bool" where
  "and_similar None content = False"
| "and_similar (Some baseline) content = (baseline \<noteq> [] \<and> similarity content baseline > 8 / 10)"

text \<open>
  \<open>WebScanner.is_similar_to_index_or_404\<close>, with the two baselines
  (\<open>self.index_content\<close>, \<open>self.not_found_content\<close>) as arguments.
\<close>

definition is_similar_to_index_or_404 :: "string option \<Rightarrow> string option \<Rightarrow> string \<Rightarrow> bool" where
  "is_similar_to_index_or_404 index_content not_found_content content =
     (if and_similar index_content content then True
      else if and_similar not_found_content content then True
      else False)"

section \<open>Exceptions\<close>

text \<open>
  The exceptions that occur in a scan: \<open>TypeError\<close> from unpacking \<open>None\<close>, \<open>AttributeError\<close>
  from calling a method of \<open>None\<close>, \<open>ValueError\<close> from \<open>urljoin\<close> and from
  \<open>asyncio.Semaphore\<close>, and \<open>ClientError\<close> for an exception of the HTTP client that is not
  an \<open>httpx.RequestError\<close>. All of them derive from \<open>Exception\<close>.
\<close>

datatype exn = TypeError | AttributeError | ValueError | ClientError

section \<open>Joining the target and a candidate\<close>

text \<open>
  \<open>urllib.parse.urljoin\<close> is library code, outside the repository. This section follows
  CPython 3.11: \<open>urljoin\<close>, \<open>urlparse\<close>, \<open>urlsplit\<close>, \<open>urlunparse\<close> and the check of a
  bracketed host by the \<open>ipaddress\<close> module, with the \<open>ValueError\<close> they raise as a value.
  \<open>_checknetloc\<close> is left out: it raises only for a character that NFKC normalisation
  turns into a delimiter, and the modelled range has none.
\<close>

fun split_on_from :: "char \<Rightarrow> string \<Rightarrow> string \<Rightarrow> string list" where
  "split_on_from d cur [] = [cur]"
| "split_on_from d cur (c # cs) =
     (if c = d then cur # split_on_from d [] cs else split_on_from d (cur @ [c]) cs)"

text \<open>\<open>s.split(d)\<close> for a one-character separator.\<close>

definition split_on :: "char \<Rightarrow> string \<Rightarrow> string list" where
  "split_on d s = split_on_from d [] s"

text \<open>\<open>d.join(parts)\<close>.\<close>

fun join_with :: "char \<Rightarrow> string list \<Rightarrow> string" where
  "join_with d [] = []"
| "join_with d [x] = x"
| "join_with d (x # y # zs) = x @ d # join_with d (y # zs)"

text \<open>\<open>s.partition(d)\<close>: the text before the first \<open>d\<close>, whether there is one, the text after.\<close>

definition partition_at :: "char \<Rightarrow> string \<Rightarrow> string \<times> bool \<times> string" where
  "partition_at d s =
     (let front = takeWhile (\<lambda>c. c \<noteq> d) s
      in (front, length front < length s, drop (Suc (length front)) s))"

definition isalpha_ascii :: "char \<Rightarrow> bool" where
  "isalpha_ascii c =
     (let n = (of_char c :: nat) in (65 \<le> n \<and> n \<le> 90) \<or> (97 \<le> n \<and> n \<le> 122))"

definition isdigit_ascii :: "char \<Rightarrow> bool" where
  "isdigit_ascii c = (let n = (of_char c :: nat) in 48 \<le> n \<and> n \<le> 57)"

definition scheme_char :: "char \<Rightarrow> bool" where
  "scheme_char c =
     (isalpha_ascii c \<or> isdigit_ascii c \<or> c = CHR ''+'' \<or> c = CHR ''-'' \<or> c = CHR ''.'')"

definition hex_digit :: "char \<Rightarrow> bool" where
  "hex_digit c =
     (let n = (of_char c :: nat)
      in isdigit_ascii c \<or> (65 \<le> n \<and> n \<le> 70) \<or> (97 \<le> n \<and> n \<le> 102))"

text \<open>\<open>_WHATWG_C0_CONTROL_OR_SPACE\<close> and \<open>_UNSAFE_URL_BYTES_TO_REMOVE\<close>.\<close>

definition c0_or_space :: "char \<Rightarrow> bool" where
  "c0_or_space c = ((of_char c :: nat) \<le> 32)"

definition unsafe_byte :: "char \<Rightarrow> bool" where
  "unsafe_byte c = (let n = (of_char c :: nat) in n = 9 \<or> n = 13 \<or> n = 10)"

definition uses_relative :: "string list" where
  "uses_relative = ['''', ''ftp'', ''http'', ''gopher'', ''nntp'', ''imap'', ''wais'', ''file'',
     ''https'', ''shttp'', ''mms'', ''prospero'', ''rtsp'', ''rtsps'', ''rtspu'', ''sftp'',
     ''svn'', ''svn+ssh'', ''ws'', ''wss'']"

definition uses_netloc :: "string list" where
  "uses_netloc = ['''', ''ftp'', ''http'', ''gopher'', ''nntp'', ''telnet'', ''imap'', ''wais'',
     ''file'', ''mms'', ''https'', ''shttp'', ''snews'', ''prospero'', ''rtsp'', ''rtsps'',
     ''rtspu'', ''rsync'', ''svn'', ''svn+ssh'', ''sftp'', ''nfs'', ''git'', ''git+ssh'', ''ws'',
     ''wss'']"

definition uses_params :: "string list" where
  "uses_params = ['''', ''ftp'', ''hdl'', ''prospero'', ''http'', ''imap'', ''https'', ''shttp'',
     ''rtsp'', ''rtsps'', ''rtspu'', ''sip'', ''sips'', ''mms'', ''sftp'', ''tel'']"

text \<open>\<open>int(octet_str, 10)\<close> on a string of decimal digits.\<close>

definition decimal :: "string \<Rightarrow> nat" where
  "decimal s = foldl (\<lambda>n c. 10 * n + ((of_char c :: nat) - 48)) 0 s"

text \<open>Whether \<open>IPv4Address._parse_octet\<close> accepts the octet.\<close>

definition valid_octet :: "string \<Rightarrow> bool" where
  "valid_octet octet_str =
     (octet_str \<noteq> [] \<and> list_all isdigit_ascii octet_str \<and> length octet_str \<le> 3
      \<and> \<not> (octet_str \<noteq> ''0'' \<and> hd octet_str = CHR ''0'') \<and> decimal octet_str \<le> 255)"

text \<open>Whether \<open>IPv4Address(ip_str)\<close> succeeds.\<close>

definition valid_ipv4 :: "string \<Rightarrow> bool" where
  "valid_ipv4 ip_str =
     (CHR ''/'' \<notin> set ip_str \<and> ip_str \<noteq> []
      \<and> length (split_on CHR ''.'' ip_str) = 4
      \<and> list_all valid_octet (split_on CHR ''.'' ip_str))"

text \<open>Whether \<open>IPv6Address._parse_hextet\<close> and its \<open>int(hextet_str, 16)\<close> accept the hextet.\<close>

definition valid_hextet :: "string \<Rightarrow> bool" where
  "valid_hextet hextet_str =
     (hextet_str \<noteq> [] \<and> list_all hex_digit hextet_str \<and> length hextet_str \<le> 4)"

text \<open>
  The checks of \<open>IPv6Address._ip_int_from_string\<close> on the colon-separated parts, an IPv4
  suffix already replaced by two hextets: at most nine parts, at most one \<open>::\<close>, an empty
  first or last part only beside it, and valid hextets on both sides.
\<close>

definition ipv6_parts_ok :: "string list \<Rightarrow> bool" where
  "ipv6_parts_ok parts =
     (let n = length parts
      in if 9 < n then False
         else
           (case filter (\<lambda>i. parts ! i = []) [1..<n - 1] of
              [] \<Rightarrow> n = 8 \<and> hd parts \<noteq> [] \<and> last parts \<noteq> [] \<and> list_all valid_hextet parts
            | [skip_index] \<Rightarrow>
                (let parts_hi = (if hd parts = [] then skip_index - 1 else skip_index);
                     parts_lo = (if last parts = [] then n - skip_index - 1 - 1
                                 else n - skip_index - 1)
                 in \<not> (hd parts = [] \<and> parts_hi \<noteq> 0) \<and> \<not> (last parts = [] \<and> parts_lo \<noteq> 0)
                    \<and> parts_hi + parts_lo < 8
                    \<and> list_all valid_hextet (take parts_hi parts)
                    \<and> list_all valid_hextet (drop (n - parts_lo) parts))
            | skip_index # another # more \<Rightarrow> False))"

text \<open>Whether \<open>IPv6Address(ip_str)\<close> succeeds; a scope id follows a \<open>%\<close>.\<close>

definition valid_ipv6 :: "string \<Rightarrow> bool" where
  "valid_ipv6 ip_str =
     (case partition_at CHR ''%'' ip_str of
        (addr, sep, scope_id) \<Rightarrow>
          if CHR ''/'' \<in> set ip_str then False
          else if sep \<and> (scope_id = [] \<or> CHR ''%'' \<in> set scope_id) then False
          else if addr = [] \<or> length (split_on CHR '':'' addr) < 3 then False
          else if CHR ''.'' \<in> set (last (split_on CHR '':'' addr))
          then valid_ipv4 (last (split_on CHR '':'' addr))
               \<and> ipv6_parts_ok (butlast (split_on CHR '':'' addr) @ [''0'', ''0''])
          else ipv6_parts_ok (split_on CHR '':'' addr))"

text \<open>
  Whether \<open>_check_bracketed_host\<close> returns: an IPvFuture literal has to match
  \<open>v[a-fA-F0-9]+\..+\<close>, anything else has to be an IPv6 address.
\<close>

definition check_bracketed_host :: "string \<Rightarrow> bool" where
  "check_bracketed_host hostname =
     (if take 1 hostname = ''v''
      then (let digits = takeWhile hex_digit (drop 1 hostname);
                rest = drop (length digits) (drop 1 hostname)
            in digits \<noteq> [] \<and> take 1 rest = ''.'' \<and> 2 \<le> length rest
               \<and> list_all (\<lambda>c. (of_char c :: nat) \<noteq> 10) (drop 1 rest))
      else \<not> valid_ipv4 hostname \<and> valid_ipv6 hostname)"

text \<open>
  \<open>urlsplit(url, scheme)\<close>: scheme, netloc, path, query and fragment, or the \<open>ValueError\<close>
  of a malformed bracketed host.
\<close>

definition urlsplit :: "string \<Rightarrow> string
     \<Rightarrow> exn + string \<times> string \<times> string \<times> string \<times> string" where
  "urlsplit url0 scheme0 =
     (let url1 = filter (\<lambda>c. \<not> unsafe_byte c) (dropWhile c0_or_space url0);
          scheme1 = filter (\<lambda>c. \<not> unsafe_byte c)
                      (rev (dropWhile c0_or_space (rev (dropWhile c0_or_space scheme0))));
          front = takeWhile (\<lambda>c. c \<noteq> CHR '':'') url1;
          has_scheme = (length front < length url1 \<and> front \<noteq> [] \<and> isalpha_ascii (hd url1)
                        \<and> list_all scheme_char front);
          scheme = (if has_scheme then lower front else scheme1);
          url2 = (if has_scheme then drop (Suc (length front)) url1 else url1);
          has_netloc = (take 2 url2 = ''//'');
          netloc = (if has_netloc
                    then takeWhile (\<lambda>c. c \<noteq> CHR ''/'' \<and> c \<noteq> CHR ''?'' \<and> c \<noteq> CHR ''#'')
                           (drop 2 url2)
                    else []);
          url3 = (if has_netloc then drop (length netloc) (drop 2 url2) else url2);
          opening = (CHR ''['' \<in> set netloc);
          closing = (CHR '']'' \<in> set netloc);
          bracketed_host = takeWhile (\<lambda>c. c \<noteq> CHR '']'')
                             (drop 1 (dropWhile (\<lambda>c. c \<noteq> CHR ''['') netloc));
          fragment = snd (snd (partition_at CHR ''#'' url3));
          url4 = fst (partition_at CHR ''#'' url3);
          query = snd (snd (partition_at CHR ''?'' url4));
          url5 = fst (partition_at CHR ''?'' url4)
      in if (opening \<and> \<not> closing) \<or> (closing \<and> \<not> opening) then Inl ValueError
         else if opening \<and> closing \<and> \<not> check_bracketed_host bracketed_host then Inl ValueError
         else Inr (scheme, netloc, url5, query, fragment))"

text \<open>\<open>_splitparams(url)\<close>, called when the path holds a semicolon.\<close>

definition splitparams :: "string \<Rightarrow> string \<times> string" where
  "splitparams u =
     (let segment = rev (takeWhile (\<lambda>c. c \<noteq> CHR ''/'') (rev u));
          directory = take (length u - length segment) u
      in if CHR '';'' \<notin> set segment then (u, [])
         else (directory @ takeWhile (\<lambda>c. c \<noteq> CHR '';'') segment,
               drop 1 (dropWhile (\<lambda>c. c \<noteq> CHR '';'') segment)))"

text \<open>\<open>urlparse(url, scheme)\<close>: scheme, netloc, path, params, query, fragment.\<close>

definition urlparse :: "string \<Rightarrow> string
     \<Rightarrow> exn + string \<times> string \<times> string \<times> string \<times> string \<times> string" where
  "urlparse u default_scheme =
     (case urlsplit u default_scheme of
        Inl e \<Rightarrow> Inl e
      | Inr (scheme, netloc, path, query, fragment) \<Rightarrow>
          if scheme \<in> set uses_params \<and> CHR '';'' \<in> set path
          then Inr (scheme, netloc, fst (splitparams path), snd (splitparams path),
                    query, fragment)
          else Inr (scheme, netloc, path, [], query, fragment))"

text \<open>\<open>urlunparse\<close>, with \<open>urlunsplit\<close> inlined.\<close>

definition urlunparse
  :: "string \<times> string \<times> string \<times> string \<times> string \<times> string \<Rightarrow> string" where
  "urlunparse components =
     (case components of
        (scheme, netloc, path, params, query, fragment) \<Rightarrow>
          (let u1 = (if params \<noteq> [] then path @ CHR '';'' # params else path);
               u2 = (if netloc \<noteq> [] \<or> (scheme \<noteq> [] \<and> scheme \<in> set uses_netloc)
                        \<or> take 2 u1 = ''//''
                     then ''//'' @ netloc
                          @ (if u1 \<noteq> [] \<and> take 1 u1 \<noteq> ''/'' then CHR ''/'' # u1 else u1)
                     else u1);
               u3 = (if scheme \<noteq> [] then scheme @ CHR '':'' # u2 else u2);
               u4 = (if query \<noteq> [] then u3 @ CHR ''?'' # query else u3)
           in if fragment \<noteq> [] then u4 @ CHR ''#'' # fragment else u4))"

text \<open>The loop over the segments: \<open>..\<close> pops (ignored on an empty list), \<open>.\<close> is skipped.\<close>

fun resolve :: "string list \<Rightarrow> string list \<Rightarrow> string list" where
  "resolve resolved_path [] = resolved_path"
| "resolve resolved_path (seg # segs) =
     (if seg = ''..'' then resolve (butlast resolved_path) segs
      else if seg = ''.'' then resolve resolved_path segs
      else resolve (resolved_path @ [seg]) segs)"

text \<open>\<open>segments[1:-1] = filter(None, segments[1:-1])\<close>.\<close>

definition drop_empty_inner :: "string list \<Rightarrow> string list" where
  "drop_empty_inner segments =
     (if length segments < 2 then segments
      else hd segments # filter (\<lambda>s. s \<noteq> []) (butlast (tl segments)) @ [last segments])"

text \<open>\<open>urljoin(base, url)\<close>: the joined URL, or the \<open>ValueError\<close> of \<open>urlsplit\<close>.\<close>

definition urljoin :: "string \<Rightarrow> string \<Rightarrow> exn + string" where
  "urljoin base u =
     (if base = [] then Inr u
      else if u = [] then Inr base
      else
        (case urlparse base [] of
           Inl e \<Rightarrow> Inl e
         | Inr (bscheme, bnetloc, bpath, bparams, bquery, bfragment) \<Rightarrow>
             (case urlparse u bscheme of
                Inl e \<Rightarrow> Inl e
              | Inr (scheme, netloc, path, params, query, fragment) \<Rightarrow>
                  if scheme \<noteq> bscheme \<or> scheme \<notin> set uses_relative then Inr u
                  else if scheme \<in> set uses_netloc \<and> netloc \<noteq> []
                  then Inr (urlunparse (scheme, netloc, path, params, query, fragment))
                  else
                    (let netloc1 = (if scheme \<in> set uses_netloc then bnetloc else netloc)
                     in if path = [] \<and> params = []
                        then Inr (urlunparse (scheme, netloc1, bpath, bparams,
                                              if query = [] then bquery else query, fragment))
                        else
                          (let base_parts0 = split_on CHR ''/'' bpath;
                               base_parts = (if last base_parts0 \<noteq> [] then butlast base_parts0
                                             else base_parts0);
                               segments = (if take 1 path = ''/'' then split_on CHR ''/'' path
                                           else drop_empty_inner
                                                  (base_parts @ split_on CHR ''/'' path));
                               resolved0 = resolve [] segments;
                               resolved_path = (if last segments = ''.'' \<or> last segments = ''..''
                                                then resolved0 @ [[]] else resolved0);
                               joined = join_with CHR ''/'' resolved_path
                           in Inr (urlunparse (scheme, netloc1,
                                               if joined \<noteq> [] then joined else ''/'',
                                               params, query, fragment)))))))"

section \<open>The scanner object\<close>

record scanner =
  url :: string
  wordlist :: "string list"
  webhook_url :: "string option"
  max_retry :: int
  threads :: int
  index_content :: "string option"
  not_found_content :: "string option"

definition default_wordlist :: "string list" where
  "default_wordlist = [''admin'', ''login'', ''config'', ''backup'', ''test'', ''phpinfo.php'',
     ''.env'', ''.git'', ''wp-admin'', ''wp-login.php'']"

text \<open>
  \<open>WebScanner.load_wordlist\<close>. The file system is outside the model: the argument is the
  list of the file's lines, or \<open>None\<close> when the file is missing or reading it raises.
\<close>

definition load_wordlist :: "string list option \<Rightarrow> string list" where
  "load_wordlist file =
     (case file of
        None \<Rightarrow> default_wordlist
      | Some lines \<Rightarrow> map strip (filter (\<lambda>line. strip line \<noteq> []) lines))"

text \<open>\<open>WebScanner.__init__\<close>; the defaults are \<open>max_retry = 3\<close> and \<open>threads = 5\<close>.\<close>

definition init :: "string \<Rightarrow> string list option \<Rightarrow> string option \<Rightarrow> int \<Rightarrow> int \<Rightarrow> scanner" where
  "init target file webhook retries workers =
     \<lparr>url = rstrip_slash target, wordlist = load_wordlist file, webhook_url = webhook,
      max_retry = retries, threads = workers, index_content = None, not_found_content = None\<rparr>"

section \<open>Transport and observable events\<close>

text \<open>
  What one call of the HTTP client does: it answers with a status code and a text, raises
  \<open>httpx.RequestError\<close>, or raises an exception of another class.
\<close>

datatype outcome = Response int string | RequestError | OtherError

text \<open>
  The requests sent and the lines printed, in order. \<open>Get\<close> and \<open>Post\<close> are the calls of
  \<open>client.get\<close> and \<open>client.post\<close>; every other constructor is one \<open>print\<close> of the source.
\<close>

datatype event =
    Get string
  | Post string string int
  | AttemptFailed int string
  | RequestFailed string int
  | FailedIndex
  | Unable404
  | Found string int
  | Skipped string
  | NotFound string int
  | ErrorCheckingPath string exn
  | ErrorLimitedCheck string exn
  | TotalFound nat
  | NoSensitiveFiles
  | ErrorDuringScan exn
  | WebhookSent
  | WebhookFailed int
  | WebhookError

type_synonym fetched = "int option \<times> string option"

section \<open>Prober\<close>

text \<open>\<open>range(n)\<close>.\<close>

definition range :: "int \<Rightarrow> nat list" where
  "range n = [0..<nat n]"

text \<open>
  The \<open>for attempt in range(self.max_retry + 1)\<close> loop of \<open>get_page_content\<close>, over the
  attempts still to make. \<open>net attempt\<close> is what the client does at that attempt. A loop
  that runs out of attempts falls off the end of the function, which returns \<open>None\<close>.
\<close>

fun attempts :: "scanner \<Rightarrow> string \<Rightarrow> (nat \<Rightarrow> outcome) \<Rightarrow> nat list
     \<Rightarrow> (exn + fetched option) \<times> event list" where
  "attempts self full_url net [] = (Inr None, [])"
| "attempts self full_url net (attempt # rest) =
     (case net attempt of
        Response status_code text \<Rightarrow>
          (Inr (Some (Some status_code, Some (lower text))), [Get full_url])
      | RequestError \<Rightarrow>
          (if int attempt < max_retry self
           then (case attempts self full_url net rest of
                   (r, evs) \<Rightarrow> (r, Get full_url # AttemptFailed (int attempt + 1) full_url # evs))
           else (Inr (Some (None, None)), [Get full_url, RequestFailed full_url (max_retry self)]))
      | OtherError \<Rightarrow> (Inl ClientError, [Get full_url]))"

text \<open>
  \<open>WebScanner.get_page_content\<close>. The URL is joined before the \<open>try\<close>: a \<open>ValueError\<close> of
  \<open>urljoin\<close> leaves the function before any attempt is made.
\<close>

definition get_page_content :: "scanner \<Rightarrow> string \<Rightarrow> (nat \<Rightarrow> outcome)
     \<Rightarrow> (exn + fetched option) \<times> event list" where
  "get_page_content self path net =
     (case urljoin (url self) path of
        Inl e \<Rightarrow> (Inl e, [])
      | Inr full_url \<Rightarrow> attempts self full_url net (range (max_retry self + 1)))"

text \<open>
  \<open>status, content = await self.get_page_content(...)\<close>: unpacking \<open>None\<close> raises
  \<open>TypeError\<close>.
\<close>

fun unpack :: "exn + fetched option \<Rightarrow> exn + fetched" where
  "unpack (Inl e) = Inl e"
| "unpack (Inr None) = Inl TypeError"
| "unpack (Inr (Some pair)) = Inr pair"

section \<open>Baseline fingerprinter\<close>

text \<open>
  Which fetch of a scan a transport behaviour belongs to: the three baseline fetches, and
  the fetch of the probe task created for the \<open>i\<close>-th wordlist entry.
\<close>

datatype fetch_id = Root | NotFound1 | NotFound2 | Candidate nat

type_synonym network = "fetch_id \<Rightarrow> nat \<Rightarrow> outcome"

text \<open>
  \<open>WebScanner.detect_index_and_404\<close>: the returned value or the exception raised, the
  scanner with its baselines assigned, and the events.
\<close>

definition detect_index_and_404 :: "scanner \<Rightarrow> network \<Rightarrow> (exn + bool) \<times> scanner \<times> event list" where
  "detect_index_and_404 self net =
     (case get_page_content self [] (net Root) of (r0, evs0) \<Rightarrow>
       (case unpack r0 of
          Inl e \<Rightarrow> (Inl e, self, evs0)
        | Inr (status, content) \<Rightarrow>
            if status = Some 200 then
              (let self1 = self\<lparr>index_content := content\<rparr>
               in case get_page_content self1 ''nonexistentpage12345'' (net NotFound1) of (r1, evs1) \<Rightarrow>
                 (case unpack r1 of
                    Inl e \<Rightarrow> (Inl e, self1, evs0 @ evs1)
                  | Inr (status1, content1) \<Rightarrow>
                      if status1 = Some 404
                      then (Inr True, self1\<lparr>not_found_content := content1\<rparr>, evs0 @ evs1)
                      else
                        (case get_page_content self1 ''anothernonexistent98765'' (net NotFound2) of
                           (r2, evs2) \<Rightarrow>
                             (case unpack r2 of
                                Inl e \<Rightarrow> (Inl e, self1, evs0 @ evs1 @ evs2)
                              | Inr (status2, content2) \<Rightarrow>
                                  if status2 = Some 404
                                  then (Inr True, self1\<lparr>not_found_content := content2\<rparr>,
                                        evs0 @ evs1 @ evs2)
                                  else (Inr True, self1\<lparr>not_found_content := None\<rparr>,
                                        evs0 @ evs1 @ evs2 @ [Unable404])))))
            else (Inr False, self, evs0 @ [FailedIndex])))"

section \<open>Notification and probe classification\<close>

text \<open>
  \<open>WebScanner.send_discord_webhook\<close>; \<open>hook\<close> is what \<open>client.post\<close> does when it is
  called. Only \<open>httpx.RequestError\<close> is handled here.
\<close>

definition send_discord_webhook :: "scanner \<Rightarrow> string \<Rightarrow> int \<Rightarrow> outcome
     \<Rightarrow> (exn + unit) \<times> event list" where
  "send_discord_webhook self full_url status hook =
     (case webhook_url self of
        None \<Rightarrow> (Inr (), [])
      | Some endpoint \<Rightarrow>
          if endpoint = [] then (Inr (), [])
          else
            (case hook of
               Response status_code text \<Rightarrow>
                 (Inr (), [Post endpoint full_url status,
                           if status_code = 204 then WebhookSent else WebhookFailed status_code])
             | RequestError \<Rightarrow> (Inr (), [Post endpoint full_url status, WebhookError])
             | OtherError \<Rightarrow> (Inl ClientError, [Post endpoint full_url status])))"

text \<open>
  The \<open>try\<close> block of \<open>WebScanner.check_path\<close>: the exception that leaves it if any, the
  list \<open>found_paths\<close> after it, and the events. The URL is joined first, inside the \<open>try\<close>. \<open>content\<close> is \<open>None\<close> only together with
  \<open>status\<close>; were it \<open>None\<close> under a success status, \<open>content.split()\<close> would raise
  \<open>AttributeError\<close>.
\<close>

definition check_path_try :: "scanner \<Rightarrow> string \<Rightarrow> string list \<Rightarrow> (nat \<Rightarrow> outcome) \<Rightarrow> outcome
     \<Rightarrow> (exn + unit) \<times> string list \<times> event list" where
  "check_path_try self path found_paths net hook =
     (case urljoin (url self) path of
        Inl e \<Rightarrow> (Inl e, found_paths, [])
      | Inr full_url \<Rightarrow>
          (case get_page_content self path net of (r, evs) \<Rightarrow>
            (case unpack r of
               Inl e \<Rightarrow> (Inl e, found_paths, evs)
             | Inr (None, content) \<Rightarrow> (Inr (), found_paths, evs)
             | Inr (Some status, content) \<Rightarrow>
                 if status \<noteq> 0 \<and> 200 \<le> status \<and> status < 300 then
                   (case content of
                      None \<Rightarrow> (Inl AttributeError, found_paths, evs)
                    | Some body \<Rightarrow>
                        if \<not> is_similar_to_index_or_404 (index_content self)
                                 (not_found_content self) body
                        then
                          (if truthy (webhook_url self)
                           then (case send_discord_webhook self full_url status hook of
                                   (r1, evs1) \<Rightarrow>
                                     (r1, found_paths @ [full_url],
                                      evs @ Found full_url status # evs1))
                           else (Inr (), found_paths @ [full_url], evs @ [Found full_url status]))
                        else (Inr (), found_paths, evs @ [Skipped full_url]))
                 else if status \<noteq> 0
                 then (Inr (), found_paths, evs @ [NotFound full_url status])
                 else (Inr (), found_paths, evs))))"

text \<open>\<open>WebScanner.check_path\<close>: the \<open>try\<close> block under \<open>except Exception\<close>.\<close>

definition check_path :: "scanner \<Rightarrow> string \<Rightarrow> string list \<Rightarrow> (nat \<Rightarrow> outcome) \<Rightarrow> outcome
     \<Rightarrow> (exn + unit) \<times> string list \<times> event list" where
  "check_path self path found_paths net hook =
     (case check_path_try self path found_paths net hook of
        (Inl e, found_paths1, evs) \<Rightarrow> (Inr (), found_paths1, evs @ [ErrorCheckingPath path e])
      | (Inr u, found_paths1, evs) \<Rightarrow> (Inr (), found_paths1, evs))"

section \<open>Scan coordinator\<close>

text \<open>
  The body of \<open>limited_check\<close> inside \<open>async with semaphore\<close>: \<open>check_path\<close> under a second
  \<open>except Exception\<close>.
\<close>

definition limited_check :: "scanner \<Rightarrow> string \<Rightarrow> string list \<Rightarrow> (nat \<Rightarrow> outcome) \<Rightarrow> outcome
     \<Rightarrow> (exn + unit) \<times> string list \<times> event list" where
  "limited_check self path found_paths net hook =
     (case check_path self path found_paths net hook of
        (Inl e, found_paths1, evs) \<Rightarrow> (Inr (), found_paths1, evs @ [ErrorLimitedCheck path e])
      | (Inr u, found_paths1, evs) \<Rightarrow> (Inr (), found_paths1, evs))"

text \<open>
  The tasks gathered by \<open>scan\<close> run concurrently. A task waits for the semaphore
  (\<open>Queued\<close>), holds one of its slots while \<open>check_path\<close> runs (\<open>Holding\<close>) and has left the
  \<open>async with\<close> block (\<open>Finished\<close>). The pool is the state they share: the counter of the
  semaphore, the tasks with the path each was created for, \<open>found_paths\<close>, what has been
  printed, and the first exception a task let escape, which \<open>asyncio.gather\<close> re-raises.
\<close>

datatype phase = Queued | Holding | Finished

record pool =
  free :: nat
  tasks :: "(string \<times> phase) list"
  found :: "string list"
  printed :: "event list"
  raised :: "exn option"

text \<open>
  \<open>semaphore = asyncio.Semaphore(self.threads)\<close> and
  \<open>tasks = [limited_check(path) for path in self.wordlist]\<close>, with \<open>found_paths = []\<close>.
\<close>

definition start_pool :: "scanner \<Rightarrow> pool" where
  "start_pool self =
     \<lparr>free = nat (threads self), tasks = map (\<lambda>path. (path, Queued)) (wordlist self),
      found = [], printed = [], raised = None\<rparr>"

text \<open>
  What the event loop can do next. \<open>Acquire i\<close>: task \<open>i\<close> enters \<open>async with semaphore\<close>,
  possible only while the counter is positive. \<open>Release i\<close>: task \<open>i\<close>, holding a slot,
  completes its body and leaves the block, which gives the slot back whatever the body
  did. The effects of the body on the shared state are applied at that moment; appends
  to \<open>found_paths\<close> by different tasks are thus ordered as the tasks finish.
\<close>

datatype action = Acquire nat | Release nat

fun fire :: "scanner \<Rightarrow> network \<Rightarrow> (nat \<Rightarrow> outcome) \<Rightarrow> pool \<Rightarrow> action \<Rightarrow> pool option" where
  "fire self net hooks p (Acquire i) =
     (if i < length (tasks p) \<and> snd (tasks p ! i) = Queued \<and> 0 < free p
      then Some (p\<lparr>free := free p - 1, tasks := (tasks p)[i := (fst (tasks p ! i), Holding)]\<rparr>)
      else None)"
| "fire self net hooks p (Release i) =
     (if i < length (tasks p) \<and> snd (tasks p ! i) = Holding
      then (case limited_check self (fst (tasks p ! i)) (found p) (net (Candidate i)) (hooks i) of
              (r, found1, evs) \<Rightarrow>
                Some (p\<lparr>free := free p + 1,
                        tasks := (tasks p)[i := (fst (tasks p ! i), Finished)],
                        found := found1,
                        printed := printed p @ evs,
                        raised := (case raised p of
                                     Some e \<Rightarrow> Some e
                                   | None \<Rightarrow> (case r of Inl e \<Rightarrow> Some e | Inr u \<Rightarrow> None))\<rparr>))
      else None)"

text \<open>A schedule is a list of actions; it runs as long as each action is possible.\<close>

fun run :: "scanner \<Rightarrow> network \<Rightarrow> (nat \<Rightarrow> outcome) \<Rightarrow> pool \<Rightarrow> action list \<Rightarrow> pool option" where
  "run self net hooks p [] = Some p"
| "run self net hooks p (a # as) =
     (case fire self net hooks p a of
        None \<Rightarrow> None
      | Some p1 \<Rightarrow> run self net hooks p1 as)"

definition holders :: "pool \<Rightarrow> nat" where
  "holders p = length (filter (\<lambda>t. snd t = Holding) (tasks p))"

definition all_finished :: "pool \<Rightarrow> bool" where
  "all_finished p = list_all (\<lambda>t. snd t = Finished) (tasks p)"

text \<open>
  How a scan ends: \<open>Aborted\<close> is the early \<open>return\<close> after a failed baseline, \<open>Crashed\<close> the
  \<open>except Exception\<close> of \<open>scan\<close>, \<open>Completed\<close> the summary over \<open>found_paths\<close>.
\<close>

datatype ending = Aborted | Crashed exn | Completed "string list"

text \<open>
  \<open>WebScanner.scan\<close> under a schedule of its probe tasks. \<open>asyncio.Semaphore\<close> raises
  \<open>ValueError\<close> on a negative value. \<open>asyncio.gather\<close> returns once every task has
  finished: a schedule that cannot be run, or that leaves a task unfinished, is not a
  complete run of the scan, and the result is \<open>None\<close>.
\<close>

definition scan :: "scanner \<Rightarrow> network \<Rightarrow> (nat \<Rightarrow> outcome) \<Rightarrow> action list
     \<Rightarrow> (ending \<times> event list) option" where
  "scan self net hooks schedule =
     (case detect_index_and_404 self net of
        (Inl e, self1, evs) \<Rightarrow> Some (Crashed e, evs @ [ErrorDuringScan e])
      | (Inr False, self1, evs) \<Rightarrow> Some (Aborted, evs)
      | (Inr True, self1, evs) \<Rightarrow>
          if threads self1 < 0
          then Some (Crashed ValueError, evs @ [ErrorDuringScan ValueError])
          else
            (case run self1 net hooks (start_pool self1) schedule of
               None \<Rightarrow> None
             | Some p \<Rightarrow>
                 if \<not> all_finished p then None
                 else
                   (case raised p of
                      Some e \<Rightarrow> Some (Crashed e, evs @ printed p @ [ErrorDuringScan e])
                    | None \<Rightarrow>
                        Some (Completed (found p),
                              evs @ printed p @
                              [if found p \<noteq> [] then TotalFound (length (found p))
                               else NoSensitiveFiles]))))"

text \<open>The schedule that runs the tasks one after the other, in wordlist order.\<close>

definition one_by_one :: "nat \<Rightarrow> action list" where
  "one_by_one n = concat (map (\<lambda>i. [Acquire i, Release i]) [0..<n])"

section \<open>Reading a trace\<close>

text \<open>
  The URLs requested with GET, the notifications posted (endpoint, URL, status) and the
  findings announced (URL, status) in a list of events, in order.
\<close>

fun gets :: "event list \<Rightarrow> string list" where
  "gets [] = []"
| "gets (Get u # evs) = u # gets evs"
| "gets (ev # evs) = gets evs"

fun posts :: "event list \<Rightarrow> (string \<times> string \<times> int) list" where
  "posts [] = []"
| "posts (Post endpoint u status # evs) = (endpoint, u, status) # posts evs"
| "posts (ev # evs) = posts evs"

fun founds :: "event list \<Rightarrow> (string \<times> int) list" where
  "founds [] = []"
| "founds (Found u status # evs) = (u, status) # founds evs"
| "founds (ev # evs) = founds evs"


text \<open>
  The condition for a finding in the words of the specification: the status is present
  and in the success range 200 to 299, and the body is not a duplicate of the baselines.
\<close>

definition genuine :: "scanner \<Rightarrow> fetched \<Rightarrow> bool" where
  "genuine self result =
     (case result of
        (Some status, Some body) \<Rightarrow>
          200 \<le> status \<and> status \<le> 299
          \<and> \<not> is_similar_to_index_or_404 (index_content self) (not_found_content self) body
      | (Some status, None) \<Rightarrow> False
      | (None, content) \<Rightarrow> False)"

text \<open>The same condition on the fetch a probe of \<open>path\<close> makes under \<open>net\<close>.\<close>

definition hit :: "scanner \<Rightarrow> string \<Rightarrow> (nat \<Rightarrow> outcome) \<Rightarrow> bool" where
  "hit self path net =
     (case fst (get_page_content self path net) of
        Inl e \<Rightarrow> False
      | Inr None \<Rightarrow> False
      | Inr (Some result) \<Rightarrow> genuine self result)"

section \<open>The findings a pool owes\<close>

text \<open>
  What a probe of \<open>path\<close> owes to \<open>found_paths\<close>: the joined URL when its fetch meets the
  condition for a finding, nothing otherwise. A fetch whose URL cannot be joined returns
  nothing and meets no condition.
\<close>

definition recorded :: "scanner \<Rightarrow> string \<Rightarrow> (nat \<Rightarrow> outcome) \<Rightarrow> string list" where
  "recorded self path net =
     (case urljoin (url self) path of
        Inl e \<Rightarrow> []
      | Inr full_url \<Rightarrow> if hit self path net then [full_url] else [])"

text \<open>The URLs owed by the tasks that have finished.\<close>

definition confirmed_urls :: "scanner \<Rightarrow> network \<Rightarrow> pool \<Rightarrow> string set" where
  "confirmed_urls self net p =
     {u. \<exists>j. j < length (tasks p) \<and> snd (tasks p ! j) = Finished
            \<and> u \<in> set (recorded self (fst (tasks p ! j)) (net (Candidate j)))}"

section \<open>Concrete scenarios\<close>

text \<open>Transports: every call fails at transport level; every call raises another exception;
  two transport failures, then a 404 answer.\<close>

definition refusing :: "nat \<Rightarrow> outcome" where
  "refusing k = RequestError"

definition crashing :: "nat \<Rightarrow> outcome" where
  "crashing k = OtherError"

definition gone_on_third :: "nat \<Rightarrow> outcome" where
  "gone_on_third k = (if k < 2 then RequestError else Response 404 ''Gone'')"

text \<open>The network on which every fetch fails at transport level.\<close>

definition dead_network :: network where
  "dead_network f = refusing"

text \<open>A scanner for \<open>http://h/\<close> with the default wordlist, no webhook and five workers.\<close>

definition plain_scanner :: "int \<Rightarrow> scanner" where
  "plain_scanner retries = init ''http://h/'' None None retries 5"

text \<open>A transport that answers every call with the same status and text.\<close>

definition answering :: "int \<Rightarrow> string \<Rightarrow> nat \<Rightarrow> outcome" where
  "answering status body k = Response status body"

text \<open>
  A scanner whose baselines are those of the specification's scenarios A and B: the index
  page reads \<open>home page\<close>, the not-found page \<open>not found error\<close>.
\<close>

definition fingerprinted :: "string option \<Rightarrow> scanner" where
  "fingerprinted webhook =
     (init ''http://h/'' None webhook 3 5)
       \<lparr>index_content := Some ''home page'', not_found_content := Some ''not found error''\<rparr>"

text \<open>The schedule in which the first five tasks enter the semaphore and none leaves.\<close>

definition first_five :: "action list" where
  "first_five = [Acquire 0, Acquire 1, Acquire 2, Acquire 3, Acquire 4]"

text \<open>
  The network of the specification's scenarios: the root answers 200 with \<open>home page\<close>,
  both non-existent paths answer 404 with \<open>not found error\<close>, and every candidate
  answers 200 with \<open>archive contents xyz\<close>.
\<close>

fun scenario_network :: network where
  "scenario_network Root = answering 200 ''home page''"
| "scenario_network NotFound1 = answering 404 ''not found error''"
| "scenario_network NotFound2 = answering 404 ''not found error''"
| "scenario_network (Candidate i) = answering 200 ''archive contents xyz''"

text \<open>A scanner whose wordlist file holds the line \<open>admin\<close> twice.\<close>

definition twice_admin :: scanner where
  "twice_admin = init ''http://h/'' (Some [''admin'', ''admin'']) None 3 5"

text \<open>
  A network with the baselines of the scenarios on which the client raises for the first
  candidate, the second candidate answers 200 with a page of its own, and every other
  candidate fails at transport level.
\<close>

fun mixed_network :: network where
  "mixed_network Root = answering 200 ''home page''"
| "mixed_network NotFound1 = answering 404 ''not found error''"
| "mixed_network NotFound2 = answering 404 ''not found error''"
| "mixed_network (Candidate i) =
     (if i = 0 then crashing else if i = 1 then answering 200 ''Archive contents XYZ'' else refusing)"

text \<open>A scanner with three candidates, a webhook, one retry and two workers.\<close>

definition hooked :: scanner where
  "hooked = init ''http://h/'' (Some [''admin'', ''backup.zip'', ''.env'']) (Some ''http://hook'') 1 2"



text \<open>A scanner whose target has a path prefix: \<open>http://h/app\<close>.\<close>

definition app_scanner :: scanner where
  "app_scanner = init ''http://h/app'' None None 3 5"

section \<open>Properties of the classifier\<close>

lemma split_from_tokens:
  assumes "list_all (\<lambda>c. \<not> isspace c) cur" and "t \<in> set (split_from cur s)"
  shows "t \<noteq> [] \<and> list_all (\<lambda>c. \<not> isspace c) t"
  using assms
proof (induction cur s rule: split_from.induct)
  case (1 cur)
  then show ?case by (cases "cur = []") simp_all
next
  case (2 cur c cs)
  show ?case
  proof (cases "isspace c")
    case True
    show ?thesis
    proof (cases "cur = []")
      case True
      with \<open>isspace c\<close> 2 show ?thesis by simp
    next
      case False
      with \<open>isspace c\<close> 2 show ?thesis by auto
    qed
  next
    case False
    with 2 show ?thesis by simp
  qed
qed

lemma split_tokens: "t \<in> set (split s) \<Longrightarrow> t \<noteq> [] \<and> list_all (\<lambda>c. \<not> isspace c) t"
  using split_from_tokens [of "[]" t s] by (simp add: split_def)

lemma similarity_is_jaccard: "similarity a b = jaccard (set (split a)) (set (split b))"
  by (simp add: similarity_def jaccard_def Let_def)

lemma jaccard_same: "finite A \<Longrightarrow> A \<noteq> {} \<Longrightarrow> jaccard A A = 1"
  by (simp add: jaccard_def card_gt_0_iff)

lemma jaccard_disjoint: "A \<inter> B = {} \<Longrightarrow> jaccard A B = 0"
  by (simp add: jaccard_def)

lemma jaccard_commute: "jaccard A B = jaccard B A"
  by (simp add: jaccard_def Int_commute Un_commute)

lemma similarity_empty_baseline: "similarity content [] = 0"
  by (simp add: similarity_def split_def Let_def)

text \<open>
  Claim C3, as the code has it. \<open>similarity\<close> is the Jaccard index of the two sets of
  whitespace-delimited tokens, an empty union giving 0. A text with at least one token
  has similarity 1 to itself; two texts with disjoint non-empty token sets have
  similarity 0; and \<open>similarity\<close> is symmetric.
\<close>

theorem similarity_properties:
  "similarity a b = jaccard (set (split a)) (set (split b))
   \<and> (\<forall>t\<in>set (split a). t \<noteq> [] \<and> list_all (\<lambda>c. \<not> isspace c) t)
   \<and> (split a \<noteq> [] \<longrightarrow> similarity a a = 1)
   \<and> (split a \<noteq> [] \<and> split b \<noteq> [] \<and> set (split a) \<inter> set (split b) = {} \<longrightarrow> similarity a b = 0)
   \<and> similarity a b = similarity b a"
proof -
  have same: "split a \<noteq> [] \<longrightarrow> similarity a a = 1"
    by (simp add: similarity_is_jaccard jaccard_same)
  have disj: "split a \<noteq> [] \<and> split b \<noteq> [] \<and> set (split a) \<inter> set (split b) = {} \<longrightarrow> similarity a b = 0"
    by (simp add: similarity_is_jaccard jaccard_disjoint)
  have sym: "similarity a b = similarity b a"
    by (simp add: similarity_is_jaccard jaccard_commute)
  show ?thesis
    using same disj sym split_tokens similarity_is_jaccard by blast
qed

theorem similarity_properties_witness:
  "similarity ''home page'' ''home page'' = 1 \<and> similarity ''home page'' ''not found'' = 0
   \<and> similarity ''a b c'' ''b c d'' = similarity ''b c d'' ''a b c''
   \<and> similarity ''a b c'' ''b c d'' = 1 / 2"
proof -
  have t1: "split ''home page'' = [''home'', ''page'']" by code_simp
  have t2: "split ''not found'' = [''not'', ''found'']" by code_simp
  have d: "set (split ''home page'') \<inter> set (split ''not found'') = {}"
    unfolding t1 t2 by simp
  have j: "jaccard (set (split ''a b c'')) (set (split ''b c d'')) = 1 / 2" by code_simp
  show ?thesis
    using similarity_properties [of "''home page''" "''home page''"]
      similarity_properties [of "''home page''" "''not found''"]
      similarity_properties [of "''a b c''" "''b c d''"] t1 t2 d j
    by simp
qed

text \<open>
  Claim C3 as stated fails on identical texts without a token: the union is empty and
  the similarity of the empty text to itself is 0, not 1.
\<close>

theorem similarity_identical_counterexample:
  "similarity '''' '''' = 0 \<and> similarity '''' '''' \<noteq> 1"
  by (simp add: similarity_empty_baseline)

text \<open>
  Claim C2. A body is classified as a duplicate exactly when its similarity to a present
  index baseline, or to a present not-found baseline, exceeds 0.8; with both baselines
  absent no body is a duplicate.
\<close>

theorem is_duplicate_iff:
  "is_similar_to_index_or_404 idx nf content
     = ((\<exists>b. idx = Some b \<and> similarity content b > 8 / 10)
        \<or> (\<exists>b. nf = Some b \<and> similarity content b > 8 / 10))
   \<and> \<not> is_similar_to_index_or_404 None None content"
proof -
  have one: "and_similar x content = (\<exists>b. x = Some b \<and> similarity content b > 8 / 10)" for x
    by (cases x) (auto simp: similarity_empty_baseline)
  show ?thesis
    by (simp add: is_similar_to_index_or_404_def one)
qed

theorem is_duplicate_iff_witness:
  "is_similar_to_index_or_404 (Some ''home page'') (Some ''not found error'') ''home page''
   \<and> \<not> is_similar_to_index_or_404 (Some ''home page'') (Some ''not found error'') ''archive contents xyz''
   \<and> \<not> is_similar_to_index_or_404 None None ''home page''"
proof -
  have a: "similarity ''home page'' ''home page'' = 1" by code_simp
  have b: "similarity ''archive contents xyz'' ''home page'' = 0" by code_simp
  have c: "similarity ''archive contents xyz'' ''not found error'' = 0" by code_simp
  show ?thesis
    using is_duplicate_iff [of "Some ''home page''" "Some ''not found error''" "''home page''"]
      is_duplicate_iff [of "Some ''home page''" "Some ''not found error''" "''archive contents xyz''"]
      is_duplicate_iff [of None None "''home page''"] a b c
    by simp
qed

section \<open>Properties of the prober\<close>

lemma range_nonneg: "0 \<le> n \<Longrightarrow> range (n + 1) = [0..<Suc (nat n)]"
  by (simp add: range_def nat_add_distrib)


lemma attempts_all_fail:
  assumes "0 \<le> max_retry self" and "a \<le> nat (max_retry self)"
    and "\<forall>j. a \<le> j \<and> j \<le> nat (max_retry self) \<longrightarrow> net j = RequestError"
  shows "fst (attempts self u net [a..<Suc (nat (max_retry self))]) = Inr (Some (None, None))
         \<and> gets (snd (attempts self u net [a..<Suc (nat (max_retry self))]))
             = replicate (Suc (nat (max_retry self)) - a) u"
  using assms(2,3)
proof (induction "nat (max_retry self) - a" arbitrary: a)
  case 0
  then have a: "a = nat (max_retry self)" by simp
  have n: "net a = RequestError" using 0 by simp
  have l: "[a..<Suc (nat (max_retry self))] = [a]" using a by simp
  have f: "\<not> int a < max_retry self" using a assms(1) by simp
  show ?case unfolding l using n f a by simp
next
  case (Suc d)
  then have lt: "a < nat (max_retry self)" by simp
  have n: "net a = RequestError" using Suc by simp
  have l: "[a..<Suc (nat (max_retry self))] = a # [Suc a..<Suc (nat (max_retry self))]"
    using lt by (simp add: upt_conv_Cons)
  have t: "int a < max_retry self" using lt by simp
  have ih: "fst (attempts self u net [Suc a..<Suc (nat (max_retry self))]) = Inr (Some (None, None))
            \<and> gets (snd (attempts self u net [Suc a..<Suc (nat (max_retry self))]))
                = replicate (Suc (nat (max_retry self)) - Suc a) u"
    using Suc lt by (intro Suc.hyps(1)) auto
  have r: "replicate (Suc (nat (max_retry self)) - a) u
           = u # replicate (Suc (nat (max_retry self)) - Suc a) u"
    using lt by (simp add: Suc_diff_le)
  show ?case unfolding l r using n t ih
    by (simp add: case_prod_unfold)
qed

lemma attempts_response:
  assumes "a \<le> k" and "int k \<le> max_retry self" and "k < b"
    and "\<forall>j. a \<le> j \<and> j < k \<longrightarrow> net j = RequestError"
    and "net k = Response c t"
  shows "fst (attempts self u net [a..<b]) = Inr (Some (Some c, Some (lower t)))
         \<and> gets (snd (attempts self u net [a..<b])) = replicate (Suc k - a) u"
  using assms(1,4)
proof (induction "k - a" arbitrary: a)
  case 0
  then have a: "a = k" by simp
  have l: "[a..<b] = a # [Suc a..<b]" using a assms(3) by (simp add: upt_conv_Cons)
  show ?case unfolding l using a assms(5) by simp
next
  case (Suc d)
  then have lt: "a < k" by simp
  have n: "net a = RequestError" using Suc lt by simp
  have l: "[a..<b] = a # [Suc a..<b]" using lt assms(3) by (simp add: upt_conv_Cons)
  have t: "int a < max_retry self" using lt assms(2) by simp
  have ih: "fst (attempts self u net [Suc a..<b]) = Inr (Some (Some c, Some (lower t)))
            \<and> gets (snd (attempts self u net [Suc a..<b])) = replicate (Suc k - Suc a) u"
    using Suc lt by (intro Suc.hyps(1)) auto
  have r: "replicate (Suc k - a) u = u # replicate (Suc k - Suc a) u"
    using lt by (simp add: Suc_diff_le)
  show ?case unfolding l r using n t ih
    by (simp add: case_prod_unfold)
qed



lemma fetch_joined:
  "urljoin (url self) path = Inr full_url \<Longrightarrow>
     get_page_content self path net = attempts self full_url net (range (max_retry self + 1))"
  by (simp add: get_page_content_def)

lemma fetch_unjoined:
  "urljoin (url self) path = Inl e \<Longrightarrow> get_page_content self path net = (Inl e, [])"
  by (simp add: get_page_content_def)

lemma fetch_needs_join:
  "fst (get_page_content self path net) = Inr v \<Longrightarrow> \<exists>full_url. urljoin (url self) path = Inr full_url"
  by (cases "urljoin (url self) path") (simp_all add: get_page_content_def)

lemma join_example: "urljoin ''http://h'' ''admin'' = Inr ''http://h/admin''"
  by code_simp

lemma join_bracket_example: "urljoin ''http://h'' ''//[x'' = Inl ValueError"
  by code_simp

lemma plain_url: "url (plain_scanner retries) = ''http://h''"
  by (simp add: plain_scanner_def init_def rstrip_slash_def)

lemma plain_max_retry: "max_retry (plain_scanner retries) = retries"
  by (simp add: plain_scanner_def init_def)

text \<open>
  Claim C5, as the code has it. The URL is joined before the first attempt; when
  \<open>urljoin\<close> raises, no request is sent and the exception leaves the fetch. When the URL
  joins and the retry limit is at least 0, a fetch whose attempts all raise
  \<open>httpx.RequestError\<close> sends exactly \<open>max_retry + 1\<close> requests and returns \<open>(None, None)\<close>.
  When the URL joins, whatever the limit, the first attempt that is answered, after \<open>k\<close>
  failed ones, ends the fetch: its status and lower-cased text are returned, whatever the
  status is, and exactly \<open>k + 1\<close> requests have been sent.
\<close>

theorem prober_retries:
  "(urljoin (url self) path = Inr full_url \<longrightarrow>
      (0 \<le> max_retry self \<and> (\<forall>k. k \<le> nat (max_retry self) \<longrightarrow> net k = RequestError) \<longrightarrow>
         fst (get_page_content self path net) = Inr (Some (None, None))
         \<and> gets (snd (get_page_content self path net))
             = replicate (nat (max_retry self + 1)) full_url)
      \<and> (\<forall>k status_code body.
           int k \<le> max_retry self \<and> (\<forall>j. j < k \<longrightarrow> net j = RequestError)
           \<and> net k = Response status_code body \<longrightarrow>
             fst (get_page_content self path net)
               = Inr (Some (Some status_code, Some (lower body)))
             \<and> gets (snd (get_page_content self path net)) = replicate (k + 1) full_url))
   \<and> (urljoin (url self) path = Inl e \<longrightarrow> get_page_content self path net = (Inl e, []))"
proof (intro conjI impI allI)
  assume j: "urljoin (url self) path = Inr full_url"
  assume h: "0 \<le> max_retry self \<and> (\<forall>k. k \<le> nat (max_retry self) \<longrightarrow> net k = RequestError)"
  then have nn: "0 \<le> max_retry self"
    and all: "\<forall>j. 0 \<le> j \<and> j \<le> nat (max_retry self) \<longrightarrow> net j = RequestError"
    by simp_all
  note f = attempts_all_fail [OF nn _ all, of full_url]
  show "fst (get_page_content self path net) = Inr (Some (None, None))"
    using f nn by (simp add: fetch_joined [OF j] range_nonneg)
  show "gets (snd (get_page_content self path net))
          = replicate (nat (max_retry self + 1)) full_url"
    using f nn by (simp add: fetch_joined [OF j] range_nonneg nat_add_distrib)
next
  fix k status_code body
  assume j: "urljoin (url self) path = Inr full_url"
  assume h: "int k \<le> max_retry self \<and> (\<forall>j. j < k \<longrightarrow> net j = RequestError)
        \<and> net k = Response status_code body"
  then have le: "int k \<le> max_retry self" and nn: "0 \<le> max_retry self"
    and before: "\<forall>j. 0 \<le> j \<and> j < k \<longrightarrow> net j = RequestError"
    and at: "net k = Response status_code body"
    by auto
  have lt: "k < Suc (nat (max_retry self))" using le by linarith
  note f = attempts_response [OF _ le lt before at, of full_url]
  show "fst (get_page_content self path net) = Inr (Some (Some status_code, Some (lower body)))"
    using f nn by (simp add: fetch_joined [OF j] range_nonneg)
  show "gets (snd (get_page_content self path net)) = replicate (k + 1) full_url"
    using f nn by (simp add: fetch_joined [OF j] range_nonneg)
next
  assume "urljoin (url self) path = Inl e"
  then show "get_page_content self path net = (Inl e, [])" by (rule fetch_unjoined)
qed

theorem prober_retries_witness:
  "fst (get_page_content (plain_scanner 3) ''admin'' refusing) = Inr (Some (None, None))
   \<and> gets (snd (get_page_content (plain_scanner 3) ''admin'' refusing))
     = [''http://h/admin'', ''http://h/admin'', ''http://h/admin'', ''http://h/admin'']
   \<and> fst (get_page_content (plain_scanner 3) ''admin'' gone_on_third)
     = Inr (Some (Some 404, Some ''gone''))
   \<and> gets (snd (get_page_content (plain_scanner 3) ''admin'' gone_on_third))
     = [''http://h/admin'', ''http://h/admin'', ''http://h/admin'']
   \<and> get_page_content (plain_scanner 3) ''//[x'' refusing = (Inl ValueError, [])"
proof -
  have l: "lower ''Gone'' = ''gone''" by code_simp
  have r4: "replicate 4 x = [x, x, x, x]" for x :: string by (simp add: numeral_eq_Suc)
  have r3: "replicate 3 x = [x, x, x]" for x :: string by (simp add: numeral_eq_Suc)
  have a: "fst (get_page_content (plain_scanner 3) ''admin'' refusing) = Inr (Some (None, None))
           \<and> gets (snd (get_page_content (plain_scanner 3) ''admin'' refusing))
             = replicate 4 ''http://h/admin''"
    using prober_retries [where self = "plain_scanner 3" and net = refusing
        and path = "''admin''" and full_url = "''http://h/admin''"]
    by (simp add: plain_url plain_max_retry join_example refusing_def)
  have b: "fst (get_page_content (plain_scanner 3) ''admin'' gone_on_third)
             = Inr (Some (Some 404, Some ''gone''))
           \<and> gets (snd (get_page_content (plain_scanner 3) ''admin'' gone_on_third))
             = replicate 3 ''http://h/admin''"
    using prober_retries [where self = "plain_scanner 3" and net = gone_on_third
        and path = "''admin''" and full_url = "''http://h/admin''",
        THEN conjunct1, rule_format, THEN conjunct2, rule_format, of 2 404 "''Gone''"]
    by (simp add: plain_url plain_max_retry l join_example gone_on_third_def)
  have c: "get_page_content (plain_scanner 3) ''//[x'' refusing = (Inl ValueError, [])"
    using prober_retries [where self = "plain_scanner 3" and net = refusing
        and path = "''//[x''" and e = ValueError]
    by (simp add: plain_url join_bracket_example)
  show ?thesis using a b c by (simp only: r4 r3)
qed

text \<open>
  Claim C5 as stated fails for a negative retry limit: with \<open>max_retry = -1\<close> the loop
  body never runs, and the fetch returns \<open>None\<close> instead of \<open>(None, None)\<close>.
\<close>

theorem prober_negative_retry_counterexample:
  "get_page_content (plain_scanner (- 1)) ''admin'' refusing = (Inr None, [])
   \<and> fst (get_page_content (plain_scanner (- 1)) ''admin'' refusing) \<noteq> Inr (Some (None, None))"
  by (simp add: get_page_content_def plain_url plain_max_retry join_example range_def)




section \<open>Properties of a probe\<close>

lemma founds_append: "founds (xs @ ys) = founds xs @ founds ys"
  by (induction xs rule: founds.induct) simp_all

lemma posts_append: "posts (xs @ ys) = posts xs @ posts ys"
  by (induction xs rule: posts.induct) simp_all


lemma attempts_quiet:
  "founds (snd (attempts self u net ks)) = [] \<and> posts (snd (attempts self u net ks)) = []"
proof (induction ks)
  case Nil
  show ?case by simp
next
  case (Cons k ks)
  show ?case
  proof (cases "net k")
    case (Response c t)
    then show ?thesis by simp
  next
    case RequestError
    with Cons show ?thesis by (simp add: case_prod_unfold)
  next
    case OtherError
    then show ?thesis by simp
  qed
qed

lemma fetch_quiet:
  "founds (snd (get_page_content self path net)) = []"
  "posts (snd (get_page_content self path net)) = []"
  by (cases "urljoin (url self) path"; simp add: get_page_content_def attempts_quiet)+

lemma webhook_returns:
  "truthy (webhook_url self) \<Longrightarrow> \<exists>endpoint tail.
     webhook_url self = Some endpoint \<and> endpoint \<noteq> []
     \<and> snd (send_discord_webhook self u st hook) = Post endpoint u st # tail
     \<and> founds tail = [] \<and> posts tail = []
     \<and> (fst (send_discord_webhook self u st hook) = Inr ()
         \<or> fst (send_discord_webhook self u st hook) = Inl ClientError \<and> hook = OtherError)"
  by (cases "webhook_url self"; cases hook) (auto simp: send_discord_webhook_def)

lemma check_path_unjoined:
  assumes "urljoin (url self) path = Inl e"
  shows "check_path self path found_paths net hook
         = (Inr (), found_paths, [ErrorCheckingPath path e])"
  using assms by (simp add: check_path_def check_path_try_def)

lemma check_path_raised:
  assumes "urljoin (url self) path = Inr full_url"
    and "unpack (fst (get_page_content self path net)) = Inl e"
  shows "check_path self path found_paths net hook
         = (Inr (), found_paths, snd (get_page_content self path net) @ [ErrorCheckingPath path e])"
  using assms
  by (cases "get_page_content self path net") (simp add: check_path_def check_path_try_def)

lemma check_path_no_status:
  assumes "urljoin (url self) path = Inr full_url"
    and "fst (get_page_content self path net) = Inr (Some (None, content))"
  shows "check_path self path found_paths net hook
         = (Inr (), found_paths, snd (get_page_content self path net))"
  using assms
  by (cases "get_page_content self path net") (simp add: check_path_def check_path_try_def)

lemma check_path_other_status:
  assumes "urljoin (url self) path = Inr full_url"
    and "fst (get_page_content self path net) = Inr (Some (Some status, content))"
    and "\<not> (200 \<le> status \<and> status < 300)"
  shows "check_path self path found_paths net hook
         = (Inr (), found_paths,
            snd (get_page_content self path net)
            @ (if status \<noteq> 0 then [NotFound full_url status] else []))"
  using assms
  by (cases "get_page_content self path net") (auto simp: check_path_def check_path_try_def)

lemma check_path_no_body:
  assumes "urljoin (url self) path = Inr full_url"
    and "fst (get_page_content self path net) = Inr (Some (Some status, None))"
    and "200 \<le> status \<and> status < 300"
  shows "check_path self path found_paths net hook
         = (Inr (), found_paths,
            snd (get_page_content self path net) @ [ErrorCheckingPath path AttributeError])"
  using assms
  by (cases "get_page_content self path net") (auto simp: check_path_def check_path_try_def)

lemma check_path_duplicate:
  assumes "urljoin (url self) path = Inr full_url"
    and "fst (get_page_content self path net) = Inr (Some (Some status, Some body))"
    and "200 \<le> status \<and> status < 300"
    and "is_similar_to_index_or_404 (index_content self) (not_found_content self) body"
  shows "check_path self path found_paths net hook
         = (Inr (), found_paths,
            snd (get_page_content self path net) @ [Skipped full_url])"
  using assms
  by (cases "get_page_content self path net") (auto simp: check_path_def check_path_try_def)

lemma check_path_hit:
  assumes "urljoin (url self) path = Inr full_url"
    and "fst (get_page_content self path net) = Inr (Some (Some status, Some body))"
    and "200 \<le> status \<and> status < 300"
    and "\<not> is_similar_to_index_or_404 (index_content self) (not_found_content self) body"
  shows "check_path self path found_paths net hook
         = (Inr (), found_paths @ [full_url],
            snd (get_page_content self path net)
            @ Found full_url status
            # (if truthy (webhook_url self)
               then snd (send_discord_webhook self full_url status hook)
                    @ (case fst (send_discord_webhook self full_url status hook) of
                         Inl e \<Rightarrow> [ErrorCheckingPath path e] | Inr u \<Rightarrow> [])
               else []))"
  using assms
  by (cases "get_page_content self path net";
      cases "send_discord_webhook self full_url status hook";
      cases "fst (send_discord_webhook self full_url status hook)")
     (auto simp: check_path_def check_path_try_def)

lemma hit_iff:
  "hit self path net =
     (\<exists>status body. fst (get_page_content self path net) = Inr (Some (Some status, Some body))
        \<and> 200 \<le> status \<and> status < 300
        \<and> \<not> is_similar_to_index_or_404 (index_content self) (not_found_content self) body)"
proof (cases "fst (get_page_content self path net)")
  case (Inl e)
  then show ?thesis by (simp add: hit_def)
next
  case (Inr v)
  show ?thesis
  proof (cases v)
    case None
    with Inr show ?thesis by (simp add: hit_def)
  next
    case (Some pair)
    obtain st c where p: "pair = (st, c)" by (cases pair)
    show ?thesis
      using Inr Some p by (cases st; cases c) (auto simp: hit_def genuine_def)
  qed
qed

lemma hit_needs_join:
  "hit self path net \<Longrightarrow> \<exists>full_url. urljoin (url self) path = Inr full_url"
  using fetch_needs_join [of self path net] by (auto simp: hit_iff)

lemma tail_quiet:
  "founds (case r of Inl e \<Rightarrow> [ErrorCheckingPath path e] | Inr u \<Rightarrow> []) = []"
  "posts (case r of Inl e \<Rightarrow> [ErrorCheckingPath path e] | Inr u \<Rightarrow> []) = []"
  by (cases r; simp)+

lemma check_path_on_hit:
  assumes "urljoin (url self) path = Inr full_url"
    and "fst (get_page_content self path net) = Inr (Some (Some status, Some body))"
    and "200 \<le> status \<and> status < 300"
    and "\<not> is_similar_to_index_or_404 (index_content self) (not_found_content self) body"
    and "check_path self path found_paths net hook = (r, found1, evs)"
  shows "r = Inr () \<and> found1 = found_paths @ [full_url]
         \<and> founds evs = [(full_url, status)]
         \<and> posts evs = (case webhook_url self of
                          None \<Rightarrow> []
                        | Some endpoint \<Rightarrow>
                            if endpoint = [] then [] else [(endpoint, full_url, status)])"
proof (cases "truthy (webhook_url self)")
  case True
  from webhook_returns [OF True, of full_url status hook]
  obtain endpoint tail where w: "webhook_url self = Some endpoint" "endpoint \<noteq> []"
    and s: "snd (send_discord_webhook self full_url status hook)
            = Post endpoint full_url status # tail"
    and q: "founds tail = []" "posts tail = []"
    by blast
  show ?thesis
    using check_path_hit [OF assms(1,2,3,4), of found_paths hook] assms(5) True w s q
    by (simp add: founds_append posts_append fetch_quiet tail_quiet)
next
  case False
  then have w: "webhook_url self = None \<or> webhook_url self = Some []"
    by (cases "webhook_url self") auto
  show ?thesis
    using check_path_hit [OF assms(1,2,3,4), of found_paths hook] assms(5) False w
    by (auto simp: founds_append posts_append fetch_quiet)
qed

lemma check_path_on_miss:
  assumes "\<not> hit self path net"
    and "check_path self path found_paths net hook = (r, found1, evs)"
  shows "r = Inr () \<and> found1 = found_paths \<and> founds evs = [] \<and> posts evs = []"
proof (cases "urljoin (url self) path")
  case (Inl e)
  from check_path_unjoined [OF this, of found_paths net hook] assms(2)
  show ?thesis by auto
next
  case j: (Inr full_url)
  show ?thesis
  proof (cases "fst (get_page_content self path net)")
    case (Inl e)
    then have "unpack (fst (get_page_content self path net)) = Inl e" by simp
    from check_path_raised [OF j this, of found_paths hook] assms(2)
    show ?thesis by (auto simp: founds_append posts_append fetch_quiet)
  next
    case (Inr v)
    show ?thesis
    proof (cases v)
      case None
      with Inr have "unpack (fst (get_page_content self path net)) = Inl TypeError" by simp
      from check_path_raised [OF j this, of found_paths hook] assms(2)
      show ?thesis by (auto simp: founds_append posts_append fetch_quiet)
    next
      case (Some pair)
      obtain st c where p: "pair = (st, c)" by (cases pair)
      show ?thesis
      proof (cases st)
        case None
        with Inr Some p have "fst (get_page_content self path net) = Inr (Some (None, c))" by simp
        from check_path_no_status [OF j this, of found_paths hook] assms(2)
        show ?thesis by (auto simp: fetch_quiet)
      next
        case (Some status)
        with Inr \<open>v = Some pair\<close> p
        have g: "fst (get_page_content self path net) = Inr (Some (Some status, c))" by simp
        show ?thesis
        proof (cases "200 \<le> status \<and> status < 300")
          case False
          from check_path_other_status [OF j g False, of found_paths hook] assms(2)
          show ?thesis by (auto simp: founds_append posts_append fetch_quiet)
        next
          case True
          show ?thesis
          proof (cases c)
            case None
            with g have "fst (get_page_content self path net) = Inr (Some (Some status, None))"
              by simp
            from check_path_no_body [OF j this True, of found_paths hook] assms(2)
            show ?thesis by (auto simp: founds_append posts_append fetch_quiet)
          next
            case (Some body)
            with g have g': "fst (get_page_content self path net)
                             = Inr (Some (Some status, Some body))"
              by simp
            have dup: "is_similar_to_index_or_404 (index_content self) (not_found_content self) body"
              using assms(1) g' True by (auto simp: hit_iff)
            from check_path_duplicate [OF j g' True dup, of found_paths hook] assms(2)
            show ?thesis by (auto simp: founds_append posts_append fetch_quiet)
          qed
        qed
      qed
    qed
  qed
qed

text \<open>
  Claim C1, as the code has it. A probe records a finding exactly when its fetch returned
  a status in the range 200 to 299 with a body that is not a duplicate of the baselines.
  Then the URL joined from the target and the candidate, and only the URL, is appended to
  \<open>found_paths\<close>; the URL and the status are printed together, and they are posted together
  to the webhook when one is configured, and not posted otherwise. In every other case, a
  duplicate, an absent status, a status out of range or a fetch that returned no pair
  (which includes a URL that \<open>urljoin\<close> refuses), nothing is appended, announced or posted.
\<close>

theorem finding_iff_genuine:
  "check_path self path found_paths net hook = (r, found1, evs) \<Longrightarrow>
     r = Inr ()
     \<and> (hit self path net \<longrightarrow>
          (\<exists>full_url.
             urljoin (url self) path = Inr full_url
             \<and> found1 = found_paths @ [full_url]
             \<and> (\<exists>status body.
                   fst (get_page_content self path net) = Inr (Some (Some status, Some body))
                   \<and> 200 \<le> status \<and> status \<le> 299
                   \<and> founds evs = [(full_url, status)]
                   \<and> posts evs = (case webhook_url self of
                                    None \<Rightarrow> []
                                  | Some endpoint \<Rightarrow>
                                      if endpoint = [] then []
                                      else [(endpoint, full_url, status)]))))
     \<and> (\<not> hit self path net \<longrightarrow> found1 = found_paths \<and> founds evs = [] \<and> posts evs = [])"
proof -
  assume c: "check_path self path found_paths net hook = (r, found1, evs)"
  have miss: "\<not> hit self path net \<longrightarrow> r = Inr () \<and> found1 = found_paths \<and> founds evs = [] \<and> posts evs = []"
    using check_path_on_miss [OF _ c] by blast
  have yes: "hit self path net \<longrightarrow>
          r = Inr ()
          \<and> (\<exists>full_url.
             urljoin (url self) path = Inr full_url
             \<and> found1 = found_paths @ [full_url]
             \<and> (\<exists>status body.
                   fst (get_page_content self path net) = Inr (Some (Some status, Some body))
                   \<and> 200 \<le> status \<and> status \<le> 299
                   \<and> founds evs = [(full_url, status)]
                   \<and> posts evs = (case webhook_url self of
                                    None \<Rightarrow> []
                                  | Some endpoint \<Rightarrow>
                                      if endpoint = [] then []
                                      else [(endpoint, full_url, status)])))"
  proof
    assume h: "hit self path net"
    then obtain status body where
      g: "fst (get_page_content self path net) = Inr (Some (Some status, Some body))"
      and rg: "200 \<le> status \<and> status < 300"
      and nd: "\<not> is_similar_to_index_or_404 (index_content self) (not_found_content self) body"
      by (auto simp: hit_iff)
    from hit_needs_join [OF h] obtain full_url where
      j: "urljoin (url self) path = Inr full_url" by blast
    from check_path_on_hit [OF j g rg nd c]
    have k: "r = Inr ()" "found1 = found_paths @ [full_url]"
      "founds evs = [(full_url, status)]"
      "posts evs = (case webhook_url self of
                      None \<Rightarrow> []
                    | Some endpoint \<Rightarrow>
                        if endpoint = [] then [] else [(endpoint, full_url, status)])"
      by simp_all
    have s: "200 \<le> status \<and> status \<le> 299" using rg by simp
    have "\<exists>status body.
            fst (get_page_content self path net) = Inr (Some (Some status, Some body))
            \<and> 200 \<le> status \<and> status \<le> 299
            \<and> founds evs = [(full_url, status)]
            \<and> posts evs = (case webhook_url self of
                             None \<Rightarrow> []
                           | Some endpoint \<Rightarrow>
                               if endpoint = [] then []
                               else [(endpoint, full_url, status)])"
      using g s k(3,4) by blast
    with j k(1,2)
    show "r = Inr ()
          \<and> (\<exists>full_url.
             urljoin (url self) path = Inr full_url
             \<and> found1 = found_paths @ [full_url]
             \<and> (\<exists>status body.
                   fst (get_page_content self path net) = Inr (Some (Some status, Some body))
                   \<and> 200 \<le> status \<and> status \<le> 299
                   \<and> founds evs = [(full_url, status)]
                   \<and> posts evs = (case webhook_url self of
                                    None \<Rightarrow> []
                                  | Some endpoint \<Rightarrow>
                                      if endpoint = [] then []
                                      else [(endpoint, full_url, status)])))"
      by blast
  qed
  show ?thesis using miss yes by (cases "hit self path net") simp_all
qed

theorem finding_iff_genuine_witness:
  "fst (snd (check_path (fingerprinted (Some ''http://hook'')) ''backup.zip'' []
              (answering 200 ''Archive contents XYZ'') (Response 204 [])))
     = [''http://h/backup.zip'']
   \<and> founds (snd (snd (check_path (fingerprinted (Some ''http://hook'')) ''backup.zip'' []
              (answering 200 ''Archive contents XYZ'') (Response 204 []))))
     = [(''http://h/backup.zip'', 200)]
   \<and> posts (snd (snd (check_path (fingerprinted (Some ''http://hook'')) ''backup.zip'' []
              (answering 200 ''Archive contents XYZ'') (Response 204 []))))
     = [(''http://hook'', ''http://h/backup.zip'', 200)]
   \<and> fst (snd (check_path (fingerprinted (Some ''http://hook'')) ''admin'' []
              (answering 200 ''Home Page'') (Response 204 [])))
     = []"
proof -
  let ?s = "fingerprinted (Some ''http://hook'')"
  let ?b = "check_path ?s ''backup.zip'' [] (answering 200 ''Archive contents XYZ'') (Response 204 [])"
  let ?a = "check_path ?s ''admin'' [] (answering 200 ''Home Page'') (Response 204 [])"
  have hb: "hit ?s ''backup.zip'' (answering 200 ''Archive contents XYZ'')" by code_simp
  have ha: "\<not> hit ?s ''admin'' (answering 200 ''Home Page'')" by code_simp
  have g: "fst (get_page_content ?s ''backup.zip'' (answering 200 ''Archive contents XYZ''))
           = Inr (Some (Some 200, Some ''archive contents xyz''))" by code_simp
  have u: "urljoin (url ?s) ''backup.zip'' = Inr ''http://h/backup.zip''" by code_simp
  have w: "webhook_url ?s = Some ''http://hook''" by (simp add: fingerprinted_def init_def)
  have b: "?b = (fst ?b, fst (snd ?b), snd (snd ?b))" by simp
  have a: "?a = (fst ?a, fst (snd ?a), snd (snd ?a))" by simp
  from finding_iff_genuine [OF b] hb g u w
  have 1: "fst (snd ?b) = [''http://h/backup.zip'']
           \<and> founds (snd (snd ?b)) = [(''http://h/backup.zip'', 200)]
           \<and> posts (snd (snd ?b)) = [(''http://hook'', ''http://h/backup.zip'', 200)]"
    by auto
  from finding_iff_genuine [OF a] ha
  have 2: "fst (snd ?a) = []" by simp
  show ?thesis using 1 2 by simp
qed

text \<open>
  Claim C1 as stated fails where no webhook is configured: the probe of scenario B
  records its finding, as a URL, and nothing is posted.
\<close>

theorem finding_without_notification_counterexample:
  "hit (fingerprinted None) ''backup.zip'' (answering 200 ''Archive contents XYZ'')
   \<and> fst (snd (check_path (fingerprinted None) ''backup.zip'' []
                (answering 200 ''Archive contents XYZ'') (Response 204 [])))
       = [''http://h/backup.zip'']
   \<and> posts (snd (snd (check_path (fingerprinted None) ''backup.zip'' []
                (answering 200 ''Archive contents XYZ'') (Response 204 []))))
       = []"
  by code_simp

section \<open>Properties of the scan coordinator\<close>

lemma check_path_never_raises: "fst (check_path self path found_paths net hook) = Inr ()"
proof (cases "check_path_try self path found_paths net hook")
  case (fields r f evs)
  then show ?thesis by (cases r) (simp_all add: check_path_def)
qed

lemma limited_check_is_check_path:
  "limited_check self path found_paths net hook = check_path self path found_paths net hook"
proof (cases "check_path self path found_paths net hook")
  case (fields r f evs)
  with check_path_never_raises [of self path found_paths net hook] have "r = Inr ()" by simp
  with fields show ?thesis by (simp add: limited_check_def)
qed

lemma recorded_iff:
  "u \<in> set (recorded self path net) \<longleftrightarrow> hit self path net \<and> urljoin (url self) path = Inr u"
  by (cases "urljoin (url self) path") (auto simp: recorded_def)

lemma recorded_hit:
  "hit self path net \<Longrightarrow> urljoin (url self) path = Inr full_url
   \<Longrightarrow> recorded self path net = [full_url]"
  by (simp add: recorded_def)

lemma recorded_miss: "\<not> hit self path net \<Longrightarrow> recorded self path net = []"
  by (cases "urljoin (url self) path") (simp_all add: recorded_def)

lemma limited_check_found:
  assumes "limited_check self path found_paths net hook = (r, found1, evs)"
  shows "r = Inr () \<and> found1 = found_paths @ recorded self path net"
proof -
  have c: "check_path self path found_paths net hook = (r, found1, evs)"
    using assms by (simp add: limited_check_is_check_path)
  show ?thesis
  proof (cases "hit self path net")
    case True
    then obtain status body where
      g: "fst (get_page_content self path net) = Inr (Some (Some status, Some body))"
      and rg: "200 \<le> status \<and> status < 300"
      and nd: "\<not> is_similar_to_index_or_404 (index_content self) (not_found_content self) body"
      by (auto simp: hit_iff)
    from hit_needs_join [OF True] obtain full_url where
      j: "urljoin (url self) path = Inr full_url" by blast
    from check_path_on_hit [OF j g rg nd c] recorded_hit [OF True j] show ?thesis by simp
  next
    case False
    from check_path_on_miss [OF False c] recorded_miss [OF False] show ?thesis by simp
  qed
qed

lemma count_update_gain:
  "i < length xs \<Longrightarrow> \<not> P (xs ! i) \<Longrightarrow> P x
   \<Longrightarrow> length (filter P (xs[i := x])) = Suc (length (filter P xs))"
proof (induction xs arbitrary: i)
  case Nil
  then show ?case by simp
next
  case (Cons y ys)
  then show ?case by (cases i) auto
qed

lemma count_update_loss:
  "i < length xs \<Longrightarrow> P (xs ! i) \<Longrightarrow> \<not> P x
   \<Longrightarrow> Suc (length (filter P (xs[i := x]))) = length (filter P xs)"
proof (induction xs arbitrary: i)
  case Nil
  then show ?case by simp
next
  case (Cons y ys)
  then show ?case by (cases i) auto
qed

lemma fire_acquire:
  assumes "fire self net hooks p (Acquire i) = Some p1"
  shows "i < length (tasks p) \<and> snd (tasks p ! i) = Queued \<and> 0 < free p
         \<and> free p = Suc (free p1) \<and> holders p1 = Suc (holders p)
         \<and> tasks p1 = (tasks p)[i := (fst (tasks p ! i), Holding)]
         \<and> found p1 = found p \<and> raised p1 = raised p \<and> printed p1 = printed p"
proof -
  have c: "i < length (tasks p) \<and> snd (tasks p ! i) = Queued \<and> 0 < free p"
    using assms by (simp split: if_splits)
  then have p1: "p1 = p\<lparr>free := free p - 1, tasks := (tasks p)[i := (fst (tasks p ! i), Holding)]\<rparr>"
    using assms by simp
  have h: "holders p1 = Suc (holders p)"
    unfolding holders_def p1 using c
    by (simp add: count_update_gain)
  show ?thesis using c p1 h by simp
qed

lemma fire_release:
  assumes "fire self net hooks p (Release i) = Some p1"
  shows "i < length (tasks p) \<and> snd (tasks p ! i) = Holding
         \<and> free p1 = Suc (free p) \<and> Suc (holders p1) = holders p
         \<and> tasks p1 = (tasks p)[i := (fst (tasks p ! i), Finished)]
         \<and> found p1 = found p @ recorded self (fst (tasks p ! i)) (net (Candidate i))
         \<and> raised p1 = raised p"
proof -
  have c: "i < length (tasks p) \<and> snd (tasks p ! i) = Holding"
    using assms by (simp split: if_splits)
  obtain r f evs where l: "limited_check self (fst (tasks p ! i)) (found p) (net (Candidate i)) (hooks i)
      = (r, f, evs)"
    by (cases "limited_check self (fst (tasks p ! i)) (found p) (net (Candidate i)) (hooks i)")
  note lf = limited_check_found [OF l]
  have p1: "p1 = p\<lparr>free := free p + 1,
                   tasks := (tasks p)[i := (fst (tasks p ! i), Finished)],
                   found := f, printed := printed p @ evs, raised := raised p\<rparr>"
    using assms c l lf by (cases "raised p") simp_all
  have h: "Suc (holders p1) = holders p"
    unfolding holders_def p1 using c
    by (simp add: count_update_loss)
  show ?thesis using c p1 h lf by simp
qed

lemma fire_release_enabled:
  assumes "i < length (tasks p)" and "snd (tasks p ! i) = Holding"
  shows "\<exists>p1. fire self net hooks p (Release i) = Some p1"
  using assms
  by (cases "limited_check self (fst (tasks p ! i)) (found p) (net (Candidate i)) (hooks i)") simp

lemma fire_balance:
  assumes "fire self net hooks p a = Some p1"
  shows "holders p1 + free p1 = holders p + free p"
proof (cases a)
  case (Acquire i)
  with assms have "fire self net hooks p (Acquire i) = Some p1" by (simp only:)
  from fire_acquire [OF this] show ?thesis by linarith
next
  case (Release i)
  with assms have "fire self net hooks p (Release i) = Some p1" by (simp only:)
  from fire_release [OF this] show ?thesis by linarith
qed

lemma run_step:
  assumes "run self net hooks p (a # as) = Some p1"
  shows "\<exists>p2. fire self net hooks p a = Some p2 \<and> run self net hooks p2 as = Some p1"
proof (cases "fire self net hooks p a")
  case None
  with assms show ?thesis by (simp only: run.simps option.case) simp
next
  case (Some p2)
  with assms show ?thesis by (simp only: run.simps option.case) simp
qed

lemma run_balance:
  "run self net hooks p schedule = Some p1 \<Longrightarrow> holders p1 + free p1 = holders p + free p"
proof (induction schedule arbitrary: p)
  case Nil
  then show ?case by (simp only: run.simps) simp
next
  case (Cons a as)
  from run_step [OF Cons.prems] obtain p2 where f: "fire self net hooks p a = Some p2"
    and r: "run self net hooks p2 as = Some p1"
    by blast
  from Cons.IH [OF r] fire_balance [OF f] show ?case by simp
qed

lemma start_pool_balance: "holders (start_pool self) + free (start_pool self) = nat (threads self)"
  by (simp add: holders_def start_pool_def filter_map comp_def)

lemma acquire_needs_slot: "free p = 0 \<Longrightarrow> fire self net hooks p (Acquire i) = None"
  by simp

text \<open>
  Claim C9. In every state a scan can reach, under any schedule and for any wordlist, the
  tasks inside \<open>async with semaphore\<close> and the free slots add up to the number of workers,
  so at most that many tasks hold the semaphore. When all slots are taken no further task
  can enter. A task that holds a slot can always leave, and leaving gives the slot back,
  whatever its probe did.
\<close>

theorem admission_bound:
  "run self net hooks (start_pool self) schedule = Some p \<Longrightarrow>
     holders p \<le> nat (threads self)
     \<and> holders p + free p = nat (threads self)
     \<and> (holders p = nat (threads self) \<longrightarrow> fire self net hooks p (Acquire i) = None)
     \<and> (i < length (tasks p) \<and> snd (tasks p ! i) = Holding \<longrightarrow>
          (\<exists>p1. fire self net hooks p (Release i) = Some p1
                \<and> free p1 = Suc (free p) \<and> Suc (holders p1) = holders p))"
proof -
  assume r: "run self net hooks (start_pool self) schedule = Some p"
  have b: "holders p + free p = nat (threads self)"
    using run_balance [OF r] start_pool_balance [of self] by simp
  have full: "holders p = nat (threads self) \<longrightarrow> fire self net hooks p (Acquire i) = None"
  proof
    assume "holders p = nat (threads self)"
    with b have "free p = 0" by simp
    then show "fire self net hooks p (Acquire i) = None" by (rule acquire_needs_slot)
  qed
  have leave: "i < length (tasks p) \<and> snd (tasks p ! i) = Holding \<longrightarrow>
          (\<exists>p1. fire self net hooks p (Release i) = Some p1
                \<and> free p1 = Suc (free p) \<and> Suc (holders p1) = holders p)"
  proof
    assume h: "i < length (tasks p) \<and> snd (tasks p ! i) = Holding"
    then obtain p1 where f: "fire self net hooks p (Release i) = Some p1"
      using fire_release_enabled [of i p self net hooks] by blast
    from fire_release [OF f] f
    show "\<exists>p1. fire self net hooks p (Release i) = Some p1
                \<and> free p1 = Suc (free p) \<and> Suc (holders p1) = holders p"
      by blast
  qed
  from b have "holders p \<le> nat (threads self)" by linarith
  with b full leave show ?thesis by blast
qed

theorem admission_bound_witness:
  "(case run (plain_scanner 3) dead_network refusing (start_pool (plain_scanner 3)) first_five of
      None \<Rightarrow> False
    | Some p \<Rightarrow>
        length (tasks p) = 10 \<and> holders p = 5 \<and> free p = 0
        \<and> fire (plain_scanner 3) dead_network refusing p (Acquire 5) = None
        \<and> map_option free (fire (plain_scanner 3) dead_network refusing p (Release 2)) = Some 1)"
proof -
  have ne: "run (plain_scanner 3) dead_network refusing (start_pool (plain_scanner 3)) first_five \<noteq> None"
    by code_simp
  then obtain p where
    r: "run (plain_scanner 3) dead_network refusing (start_pool (plain_scanner 3)) first_five = Some p"
    by blast
  have t: "nat (threads (plain_scanner 3)) = 5" by (simp add: plain_scanner_def init_def)
  have e: "map_option holders
             (run (plain_scanner 3) dead_network refusing (start_pool (plain_scanner 3)) first_five)
           = Some 5"
    by code_simp
  have l: "map_option (\<lambda>q. length (tasks q))
             (run (plain_scanner 3) dead_network refusing (start_pool (plain_scanner 3)) first_five)
           = Some 10"
    by code_simp
  have s: "map_option (\<lambda>q. snd (tasks q ! 2))
             (run (plain_scanner 3) dead_network refusing (start_pool (plain_scanner 3)) first_five)
           = Some Holding"
    by code_simp
  from e r have h: "holders p = 5" by simp
  from l r have n: "length (tasks p) = 10" by simp
  from s r have k: "snd (tasks p ! 2) = Holding" by simp
  note a5 = admission_bound [OF r, of 5]
  note a2 = admission_bound [OF r, of 2]
  from a5 h t have f0: "free p = 0" by simp
  from a5 h t have no: "fire (plain_scanner 3) dead_network refusing p (Acquire 5) = None" by simp
  from a2 n k obtain p1 where
    "fire (plain_scanner 3) dead_network refusing p (Release 2) = Some p1" "free p1 = Suc (free p)"
    by auto
  with f0 have rel: "map_option free (fire (plain_scanner 3) dead_network refusing p (Release 2)) = Some 1"
    by simp
  show ?thesis using r h n f0 no rel by simp
qed

lemma map_update_same: "i < length xs \<Longrightarrow> map f (xs[i := y]) = map f xs" if "f y = f (xs ! i)"
  using that
proof (induction xs arbitrary: i)
  case Nil
  then show ?case by simp
next
  case (Cons x xs)
  then show ?case by (cases i) simp_all
qed

lemma fire_names:
  assumes "fire self net hooks p a = Some p1"
  shows "map fst (tasks p1) = map fst (tasks p)"
proof (cases a)
  case (Acquire i)
  with assms have "fire self net hooks p (Acquire i) = Some p1" by (simp only:)
  from fire_acquire [OF this] show ?thesis by (simp add: map_update_same)
next
  case (Release i)
  with assms have "fire self net hooks p (Release i) = Some p1" by (simp only:)
  from fire_release [OF this] show ?thesis by (simp add: map_update_same)
qed

lemma run_names:
  "run self net hooks p schedule = Some p1 \<Longrightarrow> map fst (tasks p1) = map fst (tasks p)"
proof (induction schedule arbitrary: p)
  case Nil
  then show ?case by (simp only: run.simps) simp
next
  case (Cons a as)
  from run_step [OF Cons.prems] obtain p2 where f: "fire self net hooks p a = Some p2"
    and r: "run self net hooks p2 as = Some p1"
    by blast
  from Cons.IH [OF r] fire_names [OF f] show ?case by simp
qed

lemma start_pool_names: "map fst (tasks (start_pool self)) = wordlist self"
  by (simp add: start_pool_def comp_def)

lemma confirmed_iff:
  "u \<in> confirmed_urls self net p \<longleftrightarrow>
     (\<exists>j. j < length (tasks p) \<and> snd (tasks p ! j) = Finished
          \<and> u \<in> set (recorded self (fst (tasks p ! j)) (net (Candidate j))))"
  by (simp add: confirmed_urls_def)

lemma fire_confirmed:
  assumes "fire self net hooks p a = Some p1"
    and "set (found p) = confirmed_urls self net p"
  shows "set (found p1) = confirmed_urls self net p1"
proof (cases a)
  case (Acquire i)
  with assms have "fire self net hooks p (Acquire i) = Some p1" by (simp only:)
  note f = fire_acquire [OF this]
  from f have i: "i < length (tasks p)" and q: "snd (tasks p ! i) = Queued"
    and t: "tasks p1 = (tasks p)[i := (fst (tasks p ! i), Holding)]"
    and fd: "found p1 = found p"
    by simp_all
  have keep: "(snd (tasks p1 ! j) = Finished) = (snd (tasks p ! j) = Finished)
            \<and> fst (tasks p1 ! j) = fst (tasks p ! j)" if "j < length (tasks p)" for j
  proof (cases "j = i")
    case True
    with i q t show ?thesis by simp
  next
    case False
    with t show ?thesis by simp
  qed
  have len: "length (tasks p1) = length (tasks p)" using t by simp
  have same: "confirmed_urls self net p1 = confirmed_urls self net p"
  proof (intro set_eqI iffI)
    fix u
    assume "u \<in> confirmed_urls self net p1"
    then obtain j where j: "j < length (tasks p)" "snd (tasks p1 ! j) = Finished"
      "u \<in> set (recorded self (fst (tasks p1 ! j)) (net (Candidate j)))"
      unfolding confirmed_iff using len by auto
    with keep [of j] have "j < length (tasks p) \<and> snd (tasks p ! j) = Finished
      \<and> u \<in> set (recorded self (fst (tasks p ! j)) (net (Candidate j)))"
      by simp
    then show "u \<in> confirmed_urls self net p"
      unfolding confirmed_iff by (intro exI [of _ j])
  next
    fix u
    assume "u \<in> confirmed_urls self net p"
    then obtain j where j: "j < length (tasks p)" "snd (tasks p ! j) = Finished"
      "u \<in> set (recorded self (fst (tasks p ! j)) (net (Candidate j)))"
      unfolding confirmed_iff by auto
    with keep [of j] len have "j < length (tasks p1) \<and> snd (tasks p1 ! j) = Finished
      \<and> u \<in> set (recorded self (fst (tasks p1 ! j)) (net (Candidate j)))"
      by simp
    then show "u \<in> confirmed_urls self net p1"
      unfolding confirmed_iff by (intro exI [of _ j])
  qed
  show ?thesis using fd same assms(2) by simp
next
  case (Release i)
  with assms have "fire self net hooks p (Release i) = Some p1" by (simp only:)
  note f = fire_release [OF this]
  from f have i: "i < length (tasks p)" and q: "snd (tasks p ! i) = Holding"
    and t: "tasks p1 = (tasks p)[i := (fst (tasks p ! i), Finished)]"
    and fd: "found p1 = found p @ recorded self (fst (tasks p ! i)) (net (Candidate i))"
    by simp_all
  have len: "length (tasks p1) = length (tasks p)" using t by simp
  have other: "\<And>j. j < length (tasks p) \<Longrightarrow> j \<noteq> i \<Longrightarrow> tasks p1 ! j = tasks p ! j"
    using t by simp
  have self_i: "tasks p1 ! i = (fst (tasks p ! i), Finished)" using t i by simp
  have grow: "confirmed_urls self net p1
        = confirmed_urls self net p
          \<union> set (recorded self (fst (tasks p ! i)) (net (Candidate i)))"
  proof (intro set_eqI iffI)
    fix u
    assume "u \<in> confirmed_urls self net p1"
    then obtain j where j: "j < length (tasks p)" "snd (tasks p1 ! j) = Finished"
      "u \<in> set (recorded self (fst (tasks p1 ! j)) (net (Candidate j)))"
      unfolding confirmed_iff using len by auto
    show "u \<in> confirmed_urls self net p
          \<union> set (recorded self (fst (tasks p ! i)) (net (Candidate i)))"
    proof (cases "j = i")
      case True
      with j self_i show ?thesis by simp
    next
      case False
      with j other [of j] have "j < length (tasks p) \<and> snd (tasks p ! j) = Finished
        \<and> u \<in> set (recorded self (fst (tasks p ! j)) (net (Candidate j)))"
        by simp
      then have "u \<in> confirmed_urls self net p"
        unfolding confirmed_iff by (intro exI [of _ j])
      then show ?thesis by simp
    qed
  next
    fix u
    assume u: "u \<in> confirmed_urls self net p
          \<union> set (recorded self (fst (tasks p ! i)) (net (Candidate i)))"
    show "u \<in> confirmed_urls self net p1"
    proof (cases "u \<in> confirmed_urls self net p")
      case True
      then obtain j where j: "j < length (tasks p)" "snd (tasks p ! j) = Finished"
        "u \<in> set (recorded self (fst (tasks p ! j)) (net (Candidate j)))"
        unfolding confirmed_iff by auto
      with q have "j \<noteq> i" by auto
      with j other [of j] len have "j < length (tasks p1) \<and> snd (tasks p1 ! j) = Finished
        \<and> u \<in> set (recorded self (fst (tasks p1 ! j)) (net (Candidate j)))"
        by simp
      then show ?thesis
        unfolding confirmed_iff by (intro exI [of _ j])
    next
      case False
      with u have ui: "u \<in> set (recorded self (fst (tasks p ! i)) (net (Candidate i)))"
        by simp
      with self_i i len have "i < length (tasks p1) \<and> snd (tasks p1 ! i) = Finished
        \<and> u \<in> set (recorded self (fst (tasks p1 ! i)) (net (Candidate i)))"
        by simp
      then show ?thesis
        unfolding confirmed_iff by (intro exI [of _ i])
    qed
  qed
  show ?thesis using fd grow assms(2) by simp
qed

lemma run_confirmed:
  "run self net hooks p schedule = Some p1 \<Longrightarrow> set (found p) = confirmed_urls self net p
   \<Longrightarrow> set (found p1) = confirmed_urls self net p1"
proof (induction schedule arbitrary: p)
  case Nil
  then show ?case by (simp only: run.simps) simp
next
  case (Cons a as)
  from run_step [OF Cons.prems(1)] obtain p2 where f: "fire self net hooks p a = Some p2"
    and r: "run self net hooks p2 as = Some p1"
    by blast
  from Cons.IH [OF r fire_confirmed [OF f Cons.prems(2)]] show ?case .
qed

lemma start_pool_confirmed: "set (found (start_pool self)) = confirmed_urls self net (start_pool self)"
proof -
  have "snd (tasks (start_pool self) ! j) \<noteq> Finished" if "j < length (tasks (start_pool self))" for j
    using that by (simp add: start_pool_def)
  then have "confirmed_urls self net (start_pool self) = {}"
    unfolding confirmed_urls_def by (intro equals0I) auto
  then show ?thesis by (simp add: start_pool_def)
qed

lemma fire_raised:
  assumes "fire self net hooks p a = Some p1"
  shows "raised p1 = raised p"
proof (cases a)
  case (Acquire i)
  with assms have "fire self net hooks p (Acquire i) = Some p1" by (simp only:)
  from fire_acquire [OF this] show ?thesis by simp
next
  case (Release i)
  with assms have "fire self net hooks p (Release i) = Some p1" by (simp only:)
  from fire_release [OF this] show ?thesis by simp
qed

lemma run_raised:
  "run self net hooks p schedule = Some p1 \<Longrightarrow> raised p1 = raised p"
proof (induction schedule arbitrary: p)
  case Nil
  then show ?case by (simp only: run.simps) simp
next
  case (Cons a as)
  from run_step [OF Cons.prems] obtain p2 where f: "fire self net hooks p a = Some p2"
    and r: "run self net hooks p2 as = Some p1"
    by blast
  from Cons.IH [OF r] fire_raised [OF f] show ?case by simp
qed

lemma fire_length:
  "fire self net hooks p a = Some p1 \<Longrightarrow> length (tasks p1) = length (tasks p)"
  using fire_names [of self net hooks p a p1] by (metis length_map)

lemma run_length:
  "run self net hooks p schedule = Some p1 \<Longrightarrow> length (tasks p1) = length (tasks p)"
  using run_names [of self net hooks p schedule p1] by (metis length_map)

lemma fire_phase:
  assumes "fire self net hooks p a = Some p1" and "j < length (tasks p)" and "a \<noteq> Release j"
  shows "(snd (tasks p1 ! j) = Finished) = (snd (tasks p ! j) = Finished)"
proof (cases a)
  case (Acquire i)
  with assms have "fire self net hooks p (Acquire i) = Some p1" by (simp only:)
  note f = fire_acquire [OF this]
  show ?thesis
  proof (cases "j = i")
    case True
    with f show ?thesis by simp
  next
    case False
    with f show ?thesis by simp
  qed
next
  case (Release i)
  with assms have "fire self net hooks p (Release i) = Some p1" by (simp only:)
  note f = fire_release [OF this]
  from Release assms(3) have "j \<noteq> i" by simp
  with f show ?thesis by simp
qed

lemma fire_finished_stays:
  assumes "fire self net hooks p a = Some p1" and "j < length (tasks p)"
    and "snd (tasks p ! j) = Finished"
  shows "snd (tasks p1 ! j) = Finished"
proof (cases "a = Release j")
  case True
  with assms have "fire self net hooks p (Release j) = Some p1" by (simp only:)
  from fire_release [OF this] assms(3) show ?thesis by simp
next
  case False
  from fire_phase [OF assms(1,2) False] assms(3) show ?thesis by simp
qed

lemma run_finished_stays:
  "run self net hooks p schedule = Some p1 \<Longrightarrow> j < length (tasks p)
   \<Longrightarrow> snd (tasks p ! j) = Finished \<Longrightarrow> snd (tasks p1 ! j) = Finished"
proof (induction schedule arbitrary: p)
  case Nil
  then show ?case by (simp only: run.simps) simp
next
  case (Cons a as)
  from run_step [OF Cons.prems(1)] obtain p2 where f: "fire self net hooks p a = Some p2"
    and r: "run self net hooks p2 as = Some p1"
    by blast
  have l: "j < length (tasks p2)" using fire_length [OF f] Cons.prems(2) by simp
  from Cons.IH [OF r l fire_finished_stays [OF f Cons.prems(2,3)]] show ?case .
qed

lemma run_count:
  "run self net hooks p schedule = Some p1 \<Longrightarrow>
   count_list schedule (Release i)
     = (if i < length (tasks p) \<and> snd (tasks p ! i) \<noteq> Finished \<and> snd (tasks p1 ! i) = Finished
        then 1 else 0)"
proof (induction schedule arbitrary: p)
  case Nil
  then have "p1 = p" by (simp only: run.simps) simp
  then show ?case by simp
next
  case (Cons a as)
  from run_step [OF Cons.prems(1)] obtain p2 where f: "fire self net hooks p a = Some p2"
    and r: "run self net hooks p2 as = Some p1"
    by blast
  note ih = Cons.IH [OF r]
  note len = fire_length [OF f]
  show ?case
  proof (cases "a = Release i")
    case True
    with f have fr: "fire self net hooks p (Release i) = Some p2" by (simp only:)
    note rel = fire_release [OF fr]
    from rel have i: "i < length (tasks p)" and h: "snd (tasks p ! i) = Holding"
      and fin2: "snd (tasks p2 ! i) = Finished"
      by simp_all
    have fin1: "snd (tasks p1 ! i) = Finished"
      using run_finished_stays [OF r _ fin2] i len by simp
    from ih fin2 have "count_list as (Release i) = 0" by simp
    with True i h fin1 show ?thesis by simp
  next
    case False
    then have c: "count_list (a # as) (Release i) = count_list as (Release i)" by simp
    show ?thesis
    proof (cases "i < length (tasks p)")
      case True
      from fire_phase [OF f True False] ih len True show ?thesis unfolding c by simp
    next
      case False
      with ih len show ?thesis unfolding c by simp
    qed
  qed
qed

lemma fire_distinct:
  assumes "fire self net hooks p a = Some p1"
    and "set (found p) = confirmed_urls self net p"
    and "map fst (tasks p) = names"
    and "\<forall>j k u. j < length names \<and> k < length names
           \<and> urljoin (url self) (names ! j) = Inr u \<and> urljoin (url self) (names ! k) = Inr u
           \<longrightarrow> j = k"
    and "distinct (found p)"
  shows "distinct (found p1)"
proof (cases a)
  case (Acquire i)
  with assms have "fire self net hooks p (Acquire i) = Some p1" by (simp only:)
  from fire_acquire [OF this] assms(5) show ?thesis by simp
next
  case (Release i)
  with assms have "fire self net hooks p (Release i) = Some p1" by (simp only:)
  note f = fire_release [OF this]
  from f have i: "i < length (tasks p)" and h: "snd (tasks p ! i) = Holding"
    and fd: "found p1 = found p @ recorded self (fst (tasks p ! i)) (net (Candidate i))"
    by simp_all
  have len: "length names = length (tasks p)" using assms(3) by (metis length_map)
  have nm: "names ! j = fst (tasks p ! j)" if "j < length (tasks p)" for j
    using that assms(3) by (metis nth_map)
  show ?thesis
  proof (cases "hit self (fst (tasks p ! i)) (net (Candidate i))")
    case False
    with fd assms(5) show ?thesis by (simp add: recorded_miss)
  next
    case True
    from hit_needs_join [OF True] obtain u where
      ju: "urljoin (url self) (fst (tasks p ! i)) = Inr u" by blast
    have rec: "recorded self (fst (tasks p ! i)) (net (Candidate i)) = [u]"
      by (rule recorded_hit [OF True ju])
    have fresh: "u \<notin> set (found p)"
    proof
      assume "u \<in> set (found p)"
      with assms(2) have "u \<in> confirmed_urls self net p" by simp
      then obtain j where j: "j < length (tasks p)" "snd (tasks p ! j) = Finished"
        "u \<in> set (recorded self (fst (tasks p ! j)) (net (Candidate j)))"
        unfolding confirmed_iff by blast
      from j(3) have jj: "urljoin (url self) (fst (tasks p ! j)) = Inr u"
        by (simp add: recorded_iff)
      from j(2) h have ne: "i \<noteq> j" by auto
      have "i < length names \<and> j < length names
            \<and> urljoin (url self) (names ! i) = Inr u \<and> urljoin (url self) (names ! j) = Inr u"
        using i j(1) len nm [of i] nm [of j] ju jj by simp
      with assms(4) have "i = j" by blast
      with ne show False by simp
    qed
    show ?thesis using fd rec fresh assms(5) by simp
  qed
qed

lemma run_distinct:
  "run self net hooks p schedule = Some p1 \<Longrightarrow> set (found p) = confirmed_urls self net p
   \<Longrightarrow> map fst (tasks p) = names
   \<Longrightarrow> \<forall>j k u. j < length names \<and> k < length names
           \<and> urljoin (url self) (names ! j) = Inr u \<and> urljoin (url self) (names ! k) = Inr u
           \<longrightarrow> j = k
   \<Longrightarrow> distinct (found p)
   \<Longrightarrow> distinct (found p1)"
proof (induction schedule arbitrary: p)
  case Nil
  then show ?case by (simp only: run.simps) simp
next
  case (Cons a as)
  from run_step [OF Cons.prems(1)] obtain p2 where f: "fire self net hooks p a = Some p2"
    and r: "run self net hooks p2 as = Some p1"
    by blast
  have n: "map fst (tasks p2) = names"
    using fire_names [OF f] Cons.prems(3) by simp
  from Cons.IH [OF r fire_confirmed [OF f Cons.prems(2)] n Cons.prems(4)
      fire_distinct [OF f Cons.prems(2,3,4,5)]]
  show ?case .
qed

lemma all_finished_nth:
  "all_finished p \<Longrightarrow> j < length (tasks p) \<Longrightarrow> snd (tasks p ! j) = Finished"
  by (simp add: all_finished_def list_all_length)

lemma start_pool_queued:
  "j < length (tasks (start_pool self)) \<Longrightarrow> snd (tasks (start_pool self) ! j) = Queued"
  by (simp add: start_pool_def)

lemma distinct_joins:
  assumes "distinct (map f xs)" and "j < length xs" and "k < length xs"
    and "f (xs ! j) = v" and "f (xs ! k) = v"
  shows "j = k"
proof -
  have "map f xs ! j = map f xs ! k" using assms(2,3,4,5) by simp
  moreover have "j < length (map f xs)" and "k < length (map f xs)" using assms(2,3) by simp_all
  ultimately show ?thesis using assms(1) nth_eq_iff_index_eq by blast
qed

text \<open>
  Claim C7, as the code has it. One probe task is created for each wordlist entry, and
  under any schedule a task runs its probe at most once, exactly once when the scan runs
  to its end. The wordlist is not deduplicated: the findings are free of duplicate URLs
  whenever no two wordlist entries join to the same URL.
\<close>

theorem one_probe_per_entry:
  "run self net hooks (start_pool self) schedule = Some p \<Longrightarrow>
     map fst (tasks p) = wordlist self
     \<and> count_list schedule (Release i) \<le> 1
     \<and> (all_finished p \<and> i < length (wordlist self) \<longrightarrow> count_list schedule (Release i) = 1)
     \<and> ((\<forall>j k u. j < length (wordlist self) \<and> k < length (wordlist self)
            \<and> urljoin (url self) (wordlist self ! j) = Inr u
            \<and> urljoin (url self) (wordlist self ! k) = Inr u \<longrightarrow> j = k)
        \<longrightarrow> distinct (found p))"
proof -
  assume r: "run self net hooks (start_pool self) schedule = Some p"
  have names: "map fst (tasks p) = wordlist self"
    using run_names [OF r] start_pool_names [of self] by simp
  have len: "length (tasks (start_pool self)) = length (wordlist self)"
    by (simp add: start_pool_def)
  note c = run_count [OF r, of i]
  have most: "count_list schedule (Release i) \<le> 1" using c by simp
  have once: "all_finished p \<and> i < length (wordlist self) \<longrightarrow> count_list schedule (Release i) = 1"
  proof
    assume a: "all_finished p \<and> i < length (wordlist self)"
    then have i: "i < length (tasks (start_pool self))" using len by simp
    have "i < length (tasks p)" using run_length [OF r] i by simp
    with a have "snd (tasks p ! i) = Finished" by (simp add: all_finished_nth)
    with c i start_pool_queued [OF i] show "count_list schedule (Release i) = 1" by simp
  qed
  have dist: "(\<forall>j k u. j < length (wordlist self) \<and> k < length (wordlist self)
            \<and> urljoin (url self) (wordlist self ! j) = Inr u
            \<and> urljoin (url self) (wordlist self ! k) = Inr u \<longrightarrow> j = k)
        \<longrightarrow> distinct (found p)"
  proof
    assume d: "\<forall>j k u. j < length (wordlist self) \<and> k < length (wordlist self)
            \<and> urljoin (url self) (wordlist self ! j) = Inr u
            \<and> urljoin (url self) (wordlist self ! k) = Inr u \<longrightarrow> j = k"
    have e: "distinct (found (start_pool self))" by (simp add: start_pool_def)
    from run_distinct [OF r start_pool_confirmed start_pool_names d e]
    show "distinct (found p)" .
  qed
  from names most once dist show ?thesis by blast
qed

theorem one_probe_per_entry_witness:
  "(case run (plain_scanner 3) scenario_network refusing (start_pool (plain_scanner 3)) (one_by_one 10) of
      None \<Rightarrow> False
    | Some p \<Rightarrow>
        map fst (tasks p) = default_wordlist \<and> length (found p) = 10 \<and> distinct (found p)
        \<and> count_list (one_by_one 10) (Release 3) = 1)"
proof -
  have ne: "run (plain_scanner 3) scenario_network refusing (start_pool (plain_scanner 3)) (one_by_one 10)
            \<noteq> None"
    by code_simp
  then obtain p where
    r: "run (plain_scanner 3) scenario_network refusing (start_pool (plain_scanner 3)) (one_by_one 10)
        = Some p"
    by blast
  have w: "wordlist (plain_scanner 3) = default_wordlist"
    by (simp add: plain_scanner_def init_def load_wordlist_def)
  have d: "distinct (map (urljoin (url (plain_scanner 3))) (wordlist (plain_scanner 3)))"
    by code_simp
  have apart: "\<forall>j k u. j < length (wordlist (plain_scanner 3)) \<and> k < length (wordlist (plain_scanner 3))
            \<and> urljoin (url (plain_scanner 3)) (wordlist (plain_scanner 3) ! j) = Inr u
            \<and> urljoin (url (plain_scanner 3)) (wordlist (plain_scanner 3) ! k) = Inr u \<longrightarrow> j = k"
    using distinct_joins [OF d] by blast
  have f: "map_option all_finished
             (run (plain_scanner 3) scenario_network refusing (start_pool (plain_scanner 3)) (one_by_one 10))
           = Some True"
    by code_simp
  have n: "map_option (\<lambda>q. length (found q))
             (run (plain_scanner 3) scenario_network refusing (start_pool (plain_scanner 3)) (one_by_one 10))
           = Some 10"
    by code_simp
  have l: "(3::nat) < length default_wordlist" by (simp add: default_wordlist_def)
  from f r have fin: "all_finished p" by simp
  from n r have ten: "length (found p) = 10" by simp
  from one_probe_per_entry [OF r, of 3] apart fin l
  have "map fst (tasks p) = default_wordlist \<and> distinct (found p)
        \<and> count_list (one_by_one 10) (Release 3) = 1"
    unfolding w by blast
  with r ten show ?thesis by simp
qed

text \<open>
  Claim C7 as stated fails on a wordlist that repeats an entry: the file with the line
  \<open>admin\<close> twice gives two probe tasks for the same candidate, and the scan ends with the
  same URL twice among its findings.
\<close>

theorem duplicate_entry_counterexample:
  "wordlist twice_admin = [''admin'', ''admin'']
   \<and> map_option fst (scan twice_admin scenario_network refusing (one_by_one 2))
       = Some (Completed [''http://h/admin'', ''http://h/admin''])"
  by code_simp

lemma detect_keeps:
  "url (fst (snd (detect_index_and_404 self net))) = url self"
  "wordlist (fst (snd (detect_index_and_404 self net))) = wordlist self"
  "threads (fst (snd (detect_index_and_404 self net))) = threads self"
  by (simp_all add: detect_index_and_404_def Let_def split: prod.split sum.split)

lemma start_pool_raised: "raised (start_pool self) = None"
  by (simp add: start_pool_def)

lemma scan_after_baseline:
  assumes "detect_index_and_404 self net = (Inr True, self1, evs0)"
    and "0 \<le> threads self"
    and "scan self net hooks schedule = Some (ending, evs)"
  shows "\<exists>p. run self1 net hooks (start_pool self1) schedule = Some p \<and> all_finished p
             \<and> ending = Completed (found p)
             \<and> evs = evs0 @ printed p
                 @ [if found p \<noteq> [] then TotalFound (length (found p)) else NoSensitiveFiles]"
proof -
  have t: "\<not> threads self1 < 0"
    using detect_keeps(3) [of self net] assms(1,2) by simp
  show ?thesis
  proof (cases "run self1 net hooks (start_pool self1) schedule")
    case None
    with assms(1,3) t show ?thesis by (simp add: scan_def)
  next
    case (Some p)
    have nr: "raised p = None" using run_raised [OF Some] start_pool_raised by simp
    show ?thesis
    proof (cases "all_finished p")
      case False
      with assms(1,3) t Some show ?thesis by (simp add: scan_def)
    next
      case True
      with assms(1,3) t Some nr show ?thesis by (auto simp: scan_def)
    qed
  qed
qed

lemma confirmed_when_finished:
  assumes "all_finished p" and "map fst (tasks p) = wordlist self"
  shows "confirmed_urls self net p
         = {u. \<exists>j. j < length (wordlist self)
                  \<and> urljoin (url self) (wordlist self ! j) = Inr u
                  \<and> hit self (wordlist self ! j) (net (Candidate j))}"
proof -
  have len: "length (tasks p) = length (wordlist self)"
    using assms(2) by (metis length_map)
  have nm: "fst (tasks p ! j) = wordlist self ! j" if "j < length (wordlist self)" for j
    using that assms(2) len by (metis nth_map)
  have fin: "snd (tasks p ! j) = Finished" if "j < length (wordlist self)" for j
    using that assms(1) len by (simp add: all_finished_nth)
  show ?thesis
  proof (intro set_eqI iffI)
    fix u
    assume "u \<in> confirmed_urls self net p"
    then obtain j where j: "j < length (tasks p)"
      "u \<in> set (recorded self (fst (tasks p ! j)) (net (Candidate j)))"
      unfolding confirmed_iff by blast
    with len nm [of j] have "j < length (wordlist self)
        \<and> urljoin (url self) (wordlist self ! j) = Inr u
        \<and> hit self (wordlist self ! j) (net (Candidate j))"
      by (simp add: recorded_iff)
    then show "u \<in> {u. \<exists>j. j < length (wordlist self)
                  \<and> urljoin (url self) (wordlist self ! j) = Inr u
                  \<and> hit self (wordlist self ! j) (net (Candidate j))}"
      by (intro CollectI exI [of _ j])
  next
    fix u
    assume "u \<in> {u. \<exists>j. j < length (wordlist self)
                  \<and> urljoin (url self) (wordlist self ! j) = Inr u
                  \<and> hit self (wordlist self ! j) (net (Candidate j))}"
    then obtain j where j: "j < length (wordlist self)"
      "urljoin (url self) (wordlist self ! j) = Inr u"
      "hit self (wordlist self ! j) (net (Candidate j))"
      by blast
    with len nm [of j] fin [of j] have "j < length (tasks p) \<and> snd (tasks p ! j) = Finished
        \<and> u \<in> set (recorded self (fst (tasks p ! j)) (net (Candidate j)))"
      by (simp add: recorded_iff)
    then show "u \<in> confirmed_urls self net p"
      unfolding confirmed_iff by (intro exI [of _ j])
  qed
qed

lemma check_path_logs:
  assumes "fst (check_path_try self path found_paths net hook) = Inl e"
  shows "snd (snd (check_path self path found_paths net hook))
         = snd (snd (check_path_try self path found_paths net hook)) @ [ErrorCheckingPath path e]
         \<and> fst (snd (check_path self path found_paths net hook))
           = fst (snd (check_path_try self path found_paths net hook))"
proof (cases "check_path_try self path found_paths net hook")
  case (fields r f evs)
  with assms show ?thesis by (simp add: check_path_def)
qed

lemma check_path_notifies:
  assumes "hit self path net" and "truthy (webhook_url self)"
  shows "last (snd (snd (check_path self path found_paths net hook)))
         = (case hook of
              Response status_code body \<Rightarrow>
                if status_code = 204 then WebhookSent else WebhookFailed status_code
            | RequestError \<Rightarrow> WebhookError
            | OtherError \<Rightarrow> ErrorCheckingPath path ClientError)"
proof -
  from assms(1) obtain status body where
    g: "fst (get_page_content self path net) = Inr (Some (Some status, Some body))"
    and rg: "200 \<le> status \<and> status < 300"
    and nd: "\<not> is_similar_to_index_or_404 (index_content self) (not_found_content self) body"
    by (auto simp: hit_iff)
  from hit_needs_join [OF assms(1)] obtain full_url where
    j: "urljoin (url self) path = Inr full_url" by blast
  from assms(2) obtain endpoint where w: "webhook_url self = Some endpoint" "endpoint \<noteq> []"
    by (cases "webhook_url self") auto
  show ?thesis
    unfolding check_path_hit [OF j g rg nd, of found_paths hook]
    using assms(2) w by (cases hook) (simp_all add: send_discord_webhook_def)
qed

text \<open>
  Claim C8. \<open>check_path\<close> and \<open>limited_check\<close> never raise: an exception that leaves the
  \<open>try\<close> block, from the join, the fetch, the classification or the webhook, is caught and
  printed as the last line of the probe. A probe whose fetch met the condition for a
  finding has appended its URL whatever the webhook call did, and with a webhook
  configured its last line tells how the delivery went: sent, refused with a status,
  failed at transport level, or stopped by an exception that \<open>check_path\<close> caught. No task
  hands an exception to \<open>asyncio.gather\<close>, and in every state of the pool the findings are
  exactly the URLs of the finished tasks whose own fetch met the condition. Once the
  baseline is established and the semaphore created, a scan that runs to its end completes
  with a summary over exactly the candidates whose own fetch met the condition.
\<close>

theorem probe_isolation:
  "fst (check_path self path found_paths net hook) = Inr ()
   \<and> fst (limited_check self path found_paths net hook) = Inr ()
   \<and> (fst (check_path_try self path found_paths net hook) = Inl e \<longrightarrow>
        snd (snd (check_path self path found_paths net hook))
          = snd (snd (check_path_try self path found_paths net hook)) @ [ErrorCheckingPath path e])
   \<and> (hit self path net \<longrightarrow>
        (\<exists>full_url. urljoin (url self) path = Inr full_url
           \<and> fst (snd (check_path self path found_paths net hook)) = found_paths @ [full_url]))
   \<and> (hit self path net \<and> truthy (webhook_url self) \<longrightarrow>
        last (snd (snd (check_path self path found_paths net hook)))
          = (case hook of
               Response status_code body \<Rightarrow>
                 if status_code = 204 then WebhookSent else WebhookFailed status_code
             | RequestError \<Rightarrow> WebhookError
             | OtherError \<Rightarrow> ErrorCheckingPath path ClientError))
   \<and> (run self nets hooks (start_pool self) schedule = Some p \<longrightarrow>
        raised p = None \<and> set (found p) = confirmed_urls self nets p)
   \<and> (fst (detect_index_and_404 self nets) = Inr True \<and> 0 \<le> threads self
      \<and> scan self nets hooks schedule = Some (ending, evs) \<longrightarrow>
        (\<exists>fs. ending = Completed fs
           \<and> last evs = (if fs \<noteq> [] then TotalFound (length fs) else NoSensitiveFiles)
           \<and> set fs = {u. \<exists>j. j < length (wordlist self)
                 \<and> urljoin (url self) (wordlist self ! j) = Inr u
                 \<and> hit (fst (snd (detect_index_and_404 self nets))) (wordlist self ! j)
                     (nets (Candidate j))}))"
proof -
  have a: "fst (check_path self path found_paths net hook) = Inr ()"
    by (rule check_path_never_raises)
  have b: "fst (limited_check self path found_paths net hook) = Inr ()"
    by (simp add: limited_check_is_check_path check_path_never_raises)
  have c: "fst (check_path_try self path found_paths net hook) = Inl e \<longrightarrow>
        snd (snd (check_path self path found_paths net hook))
          = snd (snd (check_path_try self path found_paths net hook)) @ [ErrorCheckingPath path e]"
    using check_path_logs [of self path found_paths net hook e] by blast
  have d: "hit self path net \<longrightarrow>
        (\<exists>full_url. urljoin (url self) path = Inr full_url
           \<and> fst (snd (check_path self path found_paths net hook)) = found_paths @ [full_url])"
  proof
    assume h: "hit self path net"
    obtain r f evs1 where l: "limited_check self path found_paths net hook = (r, f, evs1)"
      by (cases "limited_check self path found_paths net hook")
    from hit_needs_join [OF h] obtain full_url where
      j: "urljoin (url self) path = Inr full_url" by blast
    from limited_check_found [OF l] recorded_hit [OF h j] l
    have "fst (snd (check_path self path found_paths net hook)) = found_paths @ [full_url]"
      by (simp add: limited_check_is_check_path)
    with j show "\<exists>full_url. urljoin (url self) path = Inr full_url
           \<and> fst (snd (check_path self path found_paths net hook)) = found_paths @ [full_url]"
      by blast
  qed
  have d2: "hit self path net \<and> truthy (webhook_url self) \<longrightarrow>
        last (snd (snd (check_path self path found_paths net hook)))
          = (case hook of
               Response status_code body \<Rightarrow>
                 if status_code = 204 then WebhookSent else WebhookFailed status_code
             | RequestError \<Rightarrow> WebhookError
             | OtherError \<Rightarrow> ErrorCheckingPath path ClientError)"
    using check_path_notifies [of self path net found_paths hook] by blast
  have e: "run self nets hooks (start_pool self) schedule = Some p \<longrightarrow>
        raised p = None \<and> set (found p) = confirmed_urls self nets p"
  proof
    assume r: "run self nets hooks (start_pool self) schedule = Some p"
    from run_raised [OF r] run_confirmed [OF r start_pool_confirmed]
    show "raised p = None \<and> set (found p) = confirmed_urls self nets p"
      by (simp add: start_pool_raised)
  qed
  have f: "fst (detect_index_and_404 self nets) = Inr True \<and> 0 \<le> threads self
      \<and> scan self nets hooks schedule = Some (ending, evs) \<longrightarrow>
        (\<exists>fs. ending = Completed fs
           \<and> last evs = (if fs \<noteq> [] then TotalFound (length fs) else NoSensitiveFiles)
           \<and> set fs = {u. \<exists>j. j < length (wordlist self)
                 \<and> urljoin (url self) (wordlist self ! j) = Inr u
                 \<and> hit (fst (snd (detect_index_and_404 self nets))) (wordlist self ! j)
                     (nets (Candidate j))})"
  proof
    assume h: "fst (detect_index_and_404 self nets) = Inr True \<and> 0 \<le> threads self
      \<and> scan self nets hooks schedule = Some (ending, evs)"
    obtain self1 evs0 where dt: "detect_index_and_404 self nets = (Inr True, self1, evs0)"
      using h by (cases "detect_index_and_404 self nets") auto
    then have s1: "fst (snd (detect_index_and_404 self nets)) = self1" by simp
    have u: "url self1 = url self" and w: "wordlist self1 = wordlist self"
      using detect_keeps(1,2) [of self nets] s1 by simp_all
    from scan_after_baseline [OF dt] h obtain q where
      r: "run self1 nets hooks (start_pool self1) schedule = Some q" and fin: "all_finished q"
      and en: "ending = Completed (found q)"
      and ev: "evs = evs0 @ printed q
                 @ [if found q \<noteq> [] then TotalFound (length (found q)) else NoSensitiveFiles]"
      by blast
    have names: "map fst (tasks q) = wordlist self1"
      using run_names [OF r] start_pool_names [of self1] by simp
    have "set (found q) = confirmed_urls self1 nets q"
      by (rule run_confirmed [OF r start_pool_confirmed])
    also have "\<dots> = {u. \<exists>j. j < length (wordlist self1)
                  \<and> urljoin (url self1) (wordlist self1 ! j) = Inr u
                  \<and> hit self1 (wordlist self1 ! j) (nets (Candidate j))}"
      by (rule confirmed_when_finished [OF fin names])
    finally have st: "set (found q) = {u. \<exists>j. j < length (wordlist self)
                 \<and> urljoin (url self) (wordlist self ! j) = Inr u
                 \<and> hit (fst (snd (detect_index_and_404 self nets))) (wordlist self ! j)
                     (nets (Candidate j))}"
      by (simp only: u w s1)
    have la: "last evs = (if found q \<noteq> [] then TotalFound (length (found q)) else NoSensitiveFiles)"
      unfolding ev by simp
    from en la st
    show "\<exists>fs. ending = Completed fs
           \<and> last evs = (if fs \<noteq> [] then TotalFound (length fs) else NoSensitiveFiles)
           \<and> set fs = {u. \<exists>j. j < length (wordlist self)
                 \<and> urljoin (url self) (wordlist self ! j) = Inr u
                 \<and> hit (fst (snd (detect_index_and_404 self nets))) (wordlist self ! j)
                     (nets (Candidate j))}"
      by blast
  qed
  from a b c d d2 e f show ?thesis by blast
qed

theorem probe_isolation_witness:
  "fst (check_path_try hooked ''admin'' [] crashing OtherError) = Inl ClientError
   \<and> fst (check_path hooked ''admin'' [] crashing OtherError) = Inr ()
   \<and> fst (snd (check_path hooked ''backup.zip'' [] (answering 200 ''Archive'') RequestError))
       = [''http://h/backup.zip'']
   \<and> last (snd (snd (check_path hooked ''backup.zip'' [] (answering 200 ''Archive'') RequestError)))
       = WebhookError
   \<and> (case scan hooked mixed_network crashing (one_by_one 3) of
        None \<Rightarrow> False
      | Some (ending, evs) \<Rightarrow>
          ending = Completed [''http://h/backup.zip''] \<and> last evs = TotalFound 1)"
proof -
  have t: "fst (check_path_try hooked ''admin'' [] crashing OtherError) = Inl ClientError"
    by code_simp
  have dt: "fst (detect_index_and_404 hooked mixed_network) = Inr True" by code_simp
  have th: "0 \<le> threads hooked" by (simp add: hooked_def init_def)
  have sc: "map_option fst (scan hooked mixed_network crashing (one_by_one 3))
            = Some (Completed [''http://h/backup.zip''])"
    by code_simp
  then obtain ending evs where
    s: "scan hooked mixed_network crashing (one_by_one 3) = Some (ending, evs)"
    and en: "ending = Completed [''http://h/backup.zip'']"
    by (cases "scan hooked mixed_network crashing (one_by_one 3)") auto
  note iso = probe_isolation [of hooked "''admin''" "[]" crashing OtherError ClientError
      mixed_network crashing "one_by_one 3" _ ending evs]
  from iso have nr: "fst (check_path hooked ''admin'' [] crashing OtherError) = Inr ()" by blast
  have hb: "hit hooked ''backup.zip'' (answering 200 ''Archive'')" by code_simp
  have wb: "truthy (webhook_url hooked)" by (simp add: hooked_def init_def)
  have ub: "urljoin (url hooked) ''backup.zip'' = Inr ''http://h/backup.zip''" by code_simp
  from probe_isolation [of hooked "''backup.zip''" "[]" "answering 200 ''Archive''" RequestError]
    hb wb ub
  have nb: "fst (snd (check_path hooked ''backup.zip'' [] (answering 200 ''Archive'') RequestError))
       = [''http://h/backup.zip'']
     \<and> last (snd (snd (check_path hooked ''backup.zip'' [] (answering 200 ''Archive'') RequestError)))
       = WebhookError"
    by auto
  from iso dt th s obtain fs where "ending = Completed fs"
    and "last evs = (if fs \<noteq> [] then TotalFound (length fs) else NoSensitiveFiles)"
    by blast
  with en have "last evs = TotalFound 1" by simp
  with t nr nb s en show ?thesis by simp
qed






















text \<open>
  Claim C6 fails on the code. The target \<open>http://h/app\<close> is kept as the base of
  \<open>urljoin\<close>, which resolves a relative candidate against the directory of the base: the
  probe of \<open>admin\<close> requests \<open>http://h/admin\<close>, outside the target's path, while the baseline
  fetch of the root requests \<open>http://h/app\<close>. A trailing slash on the target does not help,
  since \<open>__init__\<close> strips it.
\<close>

theorem probe_url_drops_prefix:
  "url app_scanner = ''http://h/app''
   \<and> gets (snd (get_page_content app_scanner ''admin'' (answering 200 []))) = [''http://h/admin'']
   \<and> gets (snd (get_page_content app_scanner [] (answering 200 []))) = [''http://h/app'']
   \<and> url (init ''http://h/app/'' None None 3 5) = ''http://h/app''"
  by code_simp

end
